theory Spec2Isabelle
  imports Main
begin

section \<open>joinslog: fan-out composition of structured-log handlers\<close>

text \<open>
  The Go package has one exported function, \<^verbatim>\<open>Handlers\<close>, and three unexported
  composite types implementing \<^verbatim>\<open>slog.Handler\<close>: \<^verbatim>\<open>handler0\<close> (no child),
  \<^verbatim>\<open>handler2\<close> (an array of two children) and \<^verbatim>\<open>handlers\<close> (a slice of children).
  Everything else is foreign: the child handlers, \<^verbatim>\<open>slog.Record\<close>, \<^verbatim>\<open>errors.Join\<close>.

  Modelling decisions.
  \<^item> An interface value of type \<^verbatim>\<open>slog.Handler\<close> is a value of the datatype \<open>handler\<close>:
    the nil interface, a foreign handler (a \<open>Leaf\<close>, identified by a number), or one of
    the three composites. A composite holds its children as the source types do (two
    fields, or a sequence), so any handler may syntactically be a child.
  \<^item> What a foreign handler does is given by an environment \<open>E\<close> of four functions, one
    per method of the interface. Its \<^verbatim>\<open>Handle\<close> transforms an abstract world \<open>'w\<close>; its
    \<^verbatim>\<open>Enabled\<close> reads that world; its \<^verbatim>\<open>WithAttrs\<close> and \<^verbatim>\<open>WithGroup\<close> return some
    handler, which may keep the slice it was given. Foreign calls are assumed to return,
    and a foreign \<^verbatim>\<open>WithAttrs\<close> does not write to attribute memory during the call.
  \<^item> A method call on the nil interface and a slice expression out of range are run-time
    panics: every method returns \<open>panic + result\<close>. The factory has no such branch
    (\<^verbatim>\<open>flat[0]\<close> and \<^verbatim>\<open>flat[1]\<close> are read under the case of the length).
  \<^item> Slices are headers (array, offset, length, capacity) into a memory of backing
    arrays, so that aliasing is visible. There is one memory for attribute arrays and one
    for the handler arrays the factory works on. A \<^verbatim>\<open>handlers\<close> value held as a child or
    passed as an argument is represented by the contents of its array: no function of the
    package writes to such an array once the value exists, and the type is unexported.
  \<^item> Each call that reaches a foreign handler's \<^verbatim>\<open>Handle\<close> or \<^verbatim>\<open>WithAttrs\<close> is
    appended, with its argument, to a log carried beside the state; the log is
    bookkeeping for stating the theorems and influences no result.
  \<^item> The aggregate returned by \<^verbatim>\<open>errors.Join\<close> is a pointer: it carries the address of
    its allocation, which the state of a \<^verbatim>\<open>Handle\<close> call counts, and \<^verbatim>\<open>errors.Is\<close>
    compares aggregates by that address.
\<close>

subsection \<open>Slices and backing arrays\<close>

datatype panic = NilDereference | SliceBoundsOutOfRange

record slice =
  arr :: nat
  off :: nat
  len :: nat
  cap :: nat

text \<open>The nil slice has no backing array: length and capacity 0.\<close>

definition nil_slice :: slice where
  "nil_slice = \<lparr>arr = 0, off = 0, len = 0, cap = 0\<rparr>"

text \<open>The elements \<^verbatim>\<open>s[0], ..., s[len(s)-1]\<close> as stored in memory \<open>m\<close>.\<close>

definition sl_read :: "'a list list \<Rightarrow> slice \<Rightarrow> 'a list" where
  "sl_read m s = take (len s) (drop (off s) (m ! arr s))"

text \<open>Overwriting the cells of an array from position \<open>i\<close> on with the values \<open>vs\<close>.\<close>

definition write_at :: "'a list \<Rightarrow> nat \<Rightarrow> 'a list \<Rightarrow> 'a list" where
  "write_at xs i vs = take i xs @ vs @ drop (i + length vs) xs"

text \<open>\<^verbatim>\<open>s[i] = v\<close> for an index within the length.\<close>

definition sl_store :: "'a list list \<Rightarrow> slice \<Rightarrow> nat \<Rightarrow> 'a \<Rightarrow> 'a list list" where
  "sl_store m s i v = m[arr s := (m ! arr s)[off s + i := v]]"

text \<open>\<^verbatim>\<open>make([]T, n)\<close>: a new array of \<open>n\<close> zero values \<open>z\<close>, at the next free address.\<close>

definition sl_make :: "'a \<Rightarrow> nat \<Rightarrow> 'a list list \<Rightarrow> slice \<times> 'a list list" where
  "sl_make z n m = (\<lparr>arr = length m, off = 0, len = n, cap = n\<rparr>, m @ [replicate n z])"

text \<open>\<^verbatim>\<open>copy(dst, src)\<close>: the first \<open>min (len dst) (len src)\<close> elements.\<close>

definition sl_copy :: "'a list list \<Rightarrow> slice \<Rightarrow> slice \<Rightarrow> 'a list list" where
  "sl_copy m dst src =
     (let vs = take (min (len dst) (len src)) (sl_read m src)
      in if vs = [] then m else m[arr dst := write_at (m ! arr dst) (off dst) vs])"

text \<open>The slice expressions \<^verbatim>\<open>s[lo:hi]\<close> and \<^verbatim>\<open>s[lo:hi:mx]\<close> with their bounds checks.\<close>

definition reslice2 :: "slice \<Rightarrow> nat \<Rightarrow> nat \<Rightarrow> panic + slice" where
  "reslice2 s lo hi =
     (if lo \<le> hi \<and> hi \<le> cap s
      then Inr \<lparr>arr = arr s, off = off s + lo, len = hi - lo, cap = cap s - lo\<rparr>
      else Inl SliceBoundsOutOfRange)"

definition reslice3 :: "slice \<Rightarrow> nat \<Rightarrow> nat \<Rightarrow> nat \<Rightarrow> panic + slice" where
  "reslice3 s lo hi mx =
     (if lo \<le> hi \<and> hi \<le> mx \<and> mx \<le> cap s
      then Inr \<lparr>arr = arr s, off = off s + lo, len = hi - lo, cap = mx - lo\<rparr>
      else Inl SliceBoundsOutOfRange)"

text \<open>
  \<^verbatim>\<open>append(s, ys...)\<close>. Within the capacity the new elements are written behind the
  length, in place. Otherwise a new array is allocated; the language fixes only that it
  is large enough, so the capacity the allocator would like is a parameter \<open>g\<close> (old
  capacity, needed length) and the model takes at least the needed length.
\<close>

definition sl_append ::
  "(nat \<Rightarrow> nat \<Rightarrow> nat) \<Rightarrow> 'a \<Rightarrow> 'a list list \<Rightarrow> slice \<Rightarrow> 'a list \<Rightarrow> slice \<times> 'a list list" where
  "sl_append g z m s ys =
     (let n = len s + length ys in
      if n \<le> cap s
      then (s\<lparr>len := n\<rparr>,
            if ys = [] then m else m[arr s := write_at (m ! arr s) (off s + len s) ys])
      else (let c = max n (g (cap s) n)
            in (\<lparr>arr = length m, off = 0, len = n, cap = c\<rparr>,
                m @ [sl_read m s @ ys @ replicate (c - n) z])))"

text \<open>Two slices share no cell, not even within their capacities.\<close>

definition sl_disjoint :: "slice \<Rightarrow> slice \<Rightarrow> bool" where
  "sl_disjoint s t \<longleftrightarrow>
     arr s \<noteq> arr t \<or> off s + cap s \<le> off t \<or> off t + cap t \<le> off s"

text \<open>A slice header that fits the memory it points into.\<close>

definition sl_valid :: "'a list list \<Rightarrow> slice \<Rightarrow> bool" where
  "sl_valid m s \<longleftrightarrow>
     len s \<le> cap s \<and> arr s < length m \<and> off s + cap s \<le> length (m ! arr s)"

subsection \<open>Errors, records, handlers\<close>

text \<open>
  An error value is a foreign error (\<open>Err\<close>: opaque, comparable, without \<^verbatim>\<open>Is\<close> or
  \<^verbatim>\<open>Unwrap\<close> methods, told apart by its identity) or a pointer to the aggregate made by
  \<^verbatim>\<open>errors.Join\<close>: \<open>JoinError a es\<close> is the \<^verbatim>\<open>*joinError\<close> at address \<open>a\<close> whose
  \<^verbatim>\<open>errs\<close> are \<open>es\<close>. A nil error is \<open>None\<close>.

  \<^verbatim>\<open>errors.Join\<close> returns nil when every argument is nil; otherwise it allocates a new
  \<^verbatim>\<open>joinError\<close> holding the non-nil arguments in order. The model is given the address
  \<open>a\<close> of the next allocation and returns the address of the one after.
\<close>

datatype error = Err nat | JoinError nat "error list"

definition errors_Join :: "error option list \<Rightarrow> nat \<Rightarrow> error option \<times> nat" where
  "errors_Join errs a =
     (case List.map_filter id errs of
        [] \<Rightarrow> (None, a)
      | e # es \<Rightarrow> (Some (JoinError a (e # es)), Suc a))"

text \<open>
  The comparison \<^verbatim>\<open>err == target\<close> of two non-nil error values: foreign errors by
  identity, aggregates by address, as they are pointers.
\<close>

fun same_error :: "error \<Rightarrow> error \<Rightarrow> bool" where
  "same_error (Err n) (Err k) = (n = k)"
| "same_error (JoinError a es) (JoinError b fs) = (a = b)"
| "same_error (Err n) (JoinError b fs) = False"
| "same_error (JoinError a es) (Err k) = False"

text \<open>
  \<^verbatim>\<open>errors.Is\<close> for non-nil arguments: the error is the target, or the error is an
  aggregate and \<^verbatim>\<open>errors.Is\<close> holds of one of the errors \<^verbatim>\<open>Unwrap() []error\<close> gives, tried
  in order.
\<close>

fun errors_Is :: "error \<Rightarrow> error \<Rightarrow> bool" where
  "errors_Is (Err n) target = same_error (Err n) target"
| "errors_Is (JoinError a es) target =
     (same_error (JoinError a es) target \<or> list_ex (\<lambda>e. errors_Is e target) es)"

type_synonym attr = "string \<times> string"
type_synonym level = int
type_synonym ctx = nat
type_synonym leaf = nat

text \<open>
  \<^verbatim>\<open>slog.Record\<close>: the composites read only its level and call \<^verbatim>\<open>Clone\<close>, which the
  library implements by clipping the capacity of the attribute slice \<open>back_attrs\<close> to its
  length, so that an append through the copy cannot write into storage the original
  can reach.
\<close>

record Record =
  Time :: int
  Message :: string
  Level :: level
  PC :: nat
  front_attrs :: "attr list"
  back_attrs :: slice

definition Clip :: "slice \<Rightarrow> slice" where
  "Clip s = s\<lparr>cap := len s\<rparr>"

definition Clone :: "Record \<Rightarrow> Record" where
  "Clone r = r\<lparr>back_attrs := Clip (back_attrs r)\<rparr>"

datatype handler =
    NilHandler
  | Leaf leaf
  | Handler0
  | Handler2 handler handler
  | HandlersList "handler list"

record 'w env =
  l_Enabled :: "leaf \<Rightarrow> ctx \<Rightarrow> level \<Rightarrow> 'w \<Rightarrow> bool"
  l_Handle :: "leaf \<Rightarrow> ctx \<Rightarrow> Record \<Rightarrow> 'w \<Rightarrow> error option \<times> 'w"
  l_WithAttrs :: "leaf \<Rightarrow> slice \<Rightarrow> handler"
  l_WithGroup :: "leaf \<Rightarrow> string \<Rightarrow> handler"

text \<open>
  The state of a \<^verbatim>\<open>Handle\<close> call: the world, the log of foreign \<^verbatim>\<open>Handle\<close> calls, and
  the address of the next aggregate that \<^verbatim>\<open>errors.Join\<close> allocates.
\<close>

type_synonym 'w hstate = "'w \<times> (leaf \<times> Record) list \<times> nat"

abbreviation calls :: "'w hstate \<Rightarrow> (leaf \<times> Record) list" where
  "calls s \<equiv> fst (snd s)"

abbreviation next_join :: "'w hstate \<Rightarrow> nat" where
  "next_join s \<equiv> snd (snd s)"

text \<open>A call of \<^verbatim>\<open>errors.Join\<close> in a state.\<close>

definition Join_in :: "error option list \<Rightarrow> 'w hstate \<Rightarrow> error option \<times> 'w hstate" where
  "Join_in errs s =
     (case errors_Join errs (next_join s) of (e, a) \<Rightarrow> (e, (fst s, calls s, a)))"

text \<open>The state of a \<^verbatim>\<open>WithAttrs\<close> call: attribute memory, and the log of foreign calls.\<close>

type_synonym astate = "attr list list \<times> (leaf \<times> slice) list"

subsection \<open>Enabled\<close>

text \<open>
  \<^verbatim>\<open>handler0.Enabled\<close> is false; \<^verbatim>\<open>handler2.Enabled\<close> is \<^verbatim>\<open>hs[0].Enabled || hs[1].Enabled\<close>
  (the second call is made only if the first is false); \<^verbatim>\<open>handlers.Enabled\<close> returns
  true at the first child that is enabled.
\<close>

fun Enabled :: "'w env \<Rightarrow> handler \<Rightarrow> ctx \<Rightarrow> level \<Rightarrow> 'w \<Rightarrow> panic + bool"
  and handlers_Enabled :: "'w env \<Rightarrow> handler list \<Rightarrow> ctx \<Rightarrow> level \<Rightarrow> 'w \<Rightarrow> panic + bool"
where
  "Enabled E NilHandler c l w = Inl NilDereference"
| "Enabled E (Leaf x) c l w = Inr (l_Enabled E x c l w)"
| "Enabled E Handler0 c l w = Inr False"
| "Enabled E (Handler2 h0 h1) c l w =
     (case Enabled E h0 c l w of
        Inl p \<Rightarrow> Inl p
      | Inr b \<Rightarrow> if b then Inr True else Enabled E h1 c l w)"
| "Enabled E (HandlersList hs) c l w = handlers_Enabled E hs c l w"
| "handlers_Enabled E [] c l w = Inr False"
| "handlers_Enabled E (h # hs) c l w =
     (case Enabled E h c l w of
        Inl p \<Rightarrow> Inl p
      | Inr b \<Rightarrow> if b then Inr True else handlers_Enabled E hs c l w)"

subsection \<open>Handle\<close>

text \<open>
  \<^verbatim>\<open>handler2.Handle\<close> fills \<^verbatim>\<open>errs[0]\<close> and \<^verbatim>\<open>errs[1]\<close> and returns the other one when one
  is nil, else \<^verbatim>\<open>errors.Join\<close> of both. \<^verbatim>\<open>handlers.Handle\<close> ranges over
  \<^verbatim>\<open>hs[:len(hs)-1]\<close> (a panic when \<open>hs\<close> is empty) with a clone of the record, then
  serves the last child with the record itself, and returns nil, the one error, or
  \<^verbatim>\<open>errors.Join\<close> of the errors collected. In \<open>handlers_Handle\<close> the equation for
  \<open>[h]\<close> is the statement for the last child and the equation for a longer list is one
  turn of the loop; \<open>errs\<close> is the slice of errors appended so far.
\<close>

fun Handle :: "'w env \<Rightarrow> handler \<Rightarrow> ctx \<Rightarrow> Record \<Rightarrow> 'w hstate \<Rightarrow> panic + (error option \<times> 'w hstate)"
  and handlers_Handle ::
    "'w env \<Rightarrow> handler list \<Rightarrow> ctx \<Rightarrow> Record \<Rightarrow> error list \<Rightarrow> 'w hstate \<Rightarrow> panic + (error list \<times> 'w hstate)"
where
  "Handle E NilHandler c r s = Inl NilDereference"
| "Handle E (Leaf x) c r s =
     (case l_Handle E x c r (fst s) of
        (e, w') \<Rightarrow> Inr (e, (w', calls s @ [(x, r)], next_join s)))"
| "Handle E Handler0 c r s = Inr (None, s)"
| "Handle E (Handler2 h0 h1) c r s =
     (case Enabled E h0 c (Level r) (fst s) of
        Inl p \<Rightarrow> Inl p
      | Inr b0 \<Rightarrow>
         (case (if b0 then Handle E h0 c (Clone r) s else Inr (None, s)) of
            Inl p \<Rightarrow> Inl p
          | Inr (e0, s1) \<Rightarrow>
             (case Enabled E h1 c (Level r) (fst s1) of
                Inl p \<Rightarrow> Inl p
              | Inr b1 \<Rightarrow>
                 (case (if b1 then Handle E h1 c r s1 else Inr (None, s1)) of
                    Inl p \<Rightarrow> Inl p
                  | Inr (e1, s2) \<Rightarrow>
                     Inr (if e0 = None then (e1, s2)
                          else if e1 = None then (e0, s2)
                          else Join_in [e0, e1] s2)))))"
| "Handle E (HandlersList hs) c r s =
     (case handlers_Handle E hs c r [] s of
        Inl p \<Rightarrow> Inl p
      | Inr (errs, s') \<Rightarrow>
         Inr (case errs of
                [] \<Rightarrow> (None, s')
              | [e] \<Rightarrow> (Some e, s')
              | _ \<Rightarrow> Join_in (map Some errs) s'))"
| "handlers_Handle E [] c r errs s = Inl SliceBoundsOutOfRange"
| "handlers_Handle E [h] c r errs s =
     (case Enabled E h c (Level r) (fst s) of
        Inl p \<Rightarrow> Inl p
      | Inr b \<Rightarrow>
         if b then
           (case Handle E h c r s of
              Inl p \<Rightarrow> Inl p
            | Inr (e, s') \<Rightarrow> Inr (case e of None \<Rightarrow> errs | Some x \<Rightarrow> errs @ [x], s'))
         else Inr (errs, s))"
| "handlers_Handle E (h # h' # hs) c r errs s =
     (case Enabled E h c (Level r) (fst s) of
        Inl p \<Rightarrow> Inl p
      | Inr b \<Rightarrow>
         if b then
           (case Handle E h c (Clone r) s of
              Inl p \<Rightarrow> Inl p
            | Inr (e, s') \<Rightarrow>
               handlers_Handle E (h' # hs) c r (case e of None \<Rightarrow> errs | Some x \<Rightarrow> errs @ [x]) s')
         else handlers_Handle E (h' # hs) c r errs s)"

subsection \<open>WithGroup\<close>

text \<open>
  \<^verbatim>\<open>handler0.WithGroup\<close> returns the receiver; \<^verbatim>\<open>handler2.WithGroup\<close> and
  \<^verbatim>\<open>handlers.WithGroup\<close> build a new composite from the children's results, in order.
\<close>

fun WithGroup :: "'w env \<Rightarrow> handler \<Rightarrow> string \<Rightarrow> panic + handler"
  and handlers_WithGroup :: "'w env \<Rightarrow> handler list \<Rightarrow> string \<Rightarrow> panic + handler list"
where
  "WithGroup E NilHandler name = Inl NilDereference"
| "WithGroup E (Leaf x) name = Inr (l_WithGroup E x name)"
| "WithGroup E Handler0 name = Inr Handler0"
| "WithGroup E (Handler2 h0 h1) name =
     (case WithGroup E h0 name of
        Inl p \<Rightarrow> Inl p
      | Inr g0 \<Rightarrow>
         (case WithGroup E h1 name of
            Inl p \<Rightarrow> Inl p
          | Inr g1 \<Rightarrow> Inr (Handler2 g0 g1)))"
| "WithGroup E (HandlersList hs) name =
     (case handlers_WithGroup E hs name of
        Inl p \<Rightarrow> Inl p
      | Inr hs2 \<Rightarrow> Inr (HandlersList hs2))"
| "handlers_WithGroup E [] name = Inr []"
| "handlers_WithGroup E (h # hs) name =
     (case WithGroup E h name of
        Inl p \<Rightarrow> Inl p
      | Inr g \<Rightarrow>
         (case handlers_WithGroup E hs name of
            Inl p \<Rightarrow> Inl p
          | Inr gs \<Rightarrow> Inr (g # gs)))"

subsection \<open>WithAttrs\<close>

text \<open>
  Both \<^verbatim>\<open>WithAttrs\<close> methods contain the same block, here \<open>split_attrs\<close>: with
  \<^verbatim>\<open>tail := cap(attrs) - len(attrs)\<close>, if \<^verbatim>\<open>tail >= len(attrs)\<close> the copy \<open>a\<close> is the
  back of the spare capacity, \<^verbatim>\<open>attrs[tail:cap(attrs)]\<close>, and \<open>attrs\<close> loses it,
  \<^verbatim>\<open>attrs[:len(attrs):tail]\<close>; otherwise \<open>a\<close> is made anew. Then \<^verbatim>\<open>copy(a, attrs)\<close>.
  The result is \<open>a\<close>, the new \<open>attrs\<close> and the memory.
\<close>

definition zero_attr :: attr where
  "zero_attr = ([], [])"

definition split_attrs :: "slice \<Rightarrow> attr list list \<Rightarrow> panic + (slice \<times> slice \<times> attr list list)" where
  "split_attrs attrs m =
     (let tail = cap attrs - len attrs in
      if tail \<ge> len attrs then
        (case reslice2 attrs tail (cap attrs) of
           Inl p \<Rightarrow> Inl p
         | Inr a \<Rightarrow>
            (case reslice3 attrs 0 (len attrs) tail of
               Inl p \<Rightarrow> Inl p
             | Inr attrs' \<Rightarrow> Inr (a, attrs', sl_copy m a attrs')))
      else
        (case sl_make zero_attr (len attrs) m of
           (a, m') \<Rightarrow> Inr (a, attrs, sl_copy m' a attrs)))"

text \<open>
  \<^verbatim>\<open>handler2.WithAttrs\<close> gives \<open>a\<close> to the first child and \<open>attrs\<close> to the second.
  \<^verbatim>\<open>handlers.WithAttrs\<close> does so for each child of \<^verbatim>\<open>hs[:len(hs)-1]\<close> (a panic when
  \<open>hs\<close> is empty) and gives what is left of \<open>attrs\<close> to the last child: in
  \<open>handlers_WithAttrs\<close> the equation for \<open>[h]\<close> is the statement for the last child.
\<close>

fun WithAttrs :: "'w env \<Rightarrow> handler \<Rightarrow> slice \<Rightarrow> astate \<Rightarrow> panic + (handler \<times> astate)"
  and handlers_WithAttrs ::
    "'w env \<Rightarrow> handler list \<Rightarrow> slice \<Rightarrow> astate \<Rightarrow> panic + (handler list \<times> astate)"
where
  "WithAttrs E NilHandler attrs s = Inl NilDereference"
| "WithAttrs E (Leaf x) attrs s = Inr (l_WithAttrs E x attrs, (fst s, snd s @ [(x, attrs)]))"
| "WithAttrs E Handler0 attrs s = Inr (Handler0, s)"
| "WithAttrs E (Handler2 h0 h1) attrs s =
     (case split_attrs attrs (fst s) of
        Inl p \<Rightarrow> Inl p
      | Inr (a, attrs', m') \<Rightarrow>
         (case WithAttrs E h0 a (m', snd s) of
            Inl p \<Rightarrow> Inl p
          | Inr (g0, s1) \<Rightarrow>
             (case WithAttrs E h1 attrs' s1 of
                Inl p \<Rightarrow> Inl p
              | Inr (g1, s2) \<Rightarrow> Inr (Handler2 g0 g1, s2))))"
| "WithAttrs E (HandlersList hs) attrs s =
     (case handlers_WithAttrs E hs attrs s of
        Inl p \<Rightarrow> Inl p
      | Inr (hs2, s') \<Rightarrow> Inr (HandlersList hs2, s'))"
| "handlers_WithAttrs E [] attrs s = Inl SliceBoundsOutOfRange"
| "handlers_WithAttrs E [h] attrs s =
     (case WithAttrs E h attrs s of
        Inl p \<Rightarrow> Inl p
      | Inr (g, s') \<Rightarrow> Inr ([g], s'))"
| "handlers_WithAttrs E (h # h' # hs) attrs s =
     (case split_attrs attrs (fst s) of
        Inl p \<Rightarrow> Inl p
      | Inr (a, attrs', m') \<Rightarrow>
         (case WithAttrs E h a (m', snd s) of
            Inl p \<Rightarrow> Inl p
          | Inr (g, s1) \<Rightarrow>
             (case handlers_WithAttrs E (h' # hs) attrs' s1 of
                Inl p \<Rightarrow> Inl p
              | Inr (gs, s2) \<Rightarrow> Inr (g # gs, s2))))"

subsection \<open>The factory\<close>

text \<open>
  The method \<^verbatim>\<open>handlers()\<close> of the interface \<^verbatim>\<open>internal\<close>: the three composites have it
  (\<^verbatim>\<open>handler0\<close> returns nil), a foreign handler fails the type assertion.
\<close>

fun internal_handlers :: "handler \<Rightarrow> handler list option" where
  "internal_handlers Handler0 = Some []"
| "internal_handlers (Handler2 h0 h1) = Some [h0, h1]"
| "internal_handlers (HandlersList hs) = Some hs"
| "internal_handlers (Leaf x) = None"
| "internal_handlers NilHandler = None"

text \<open>
  The loop of \<^verbatim>\<open>Handlers\<close> over the argument slice \<open>hs\<close>, which lives in the memory of
  handler arrays: \<open>is\<close> are the indices still to visit, \<open>flat\<close> the slice built so far.
  Each element is read from memory when its turn comes.
\<close>

fun Handlers_range ::
  "(nat \<Rightarrow> nat \<Rightarrow> nat) \<Rightarrow> slice \<Rightarrow> nat list \<Rightarrow> slice \<Rightarrow> handler list list \<Rightarrow> slice \<times> handler list list"
where
  "Handlers_range g hs [] flat m = (flat, m)"
| "Handlers_range g hs (i # is) flat m =
     (let h = (m ! arr hs) ! (off hs + i) in
      if h = NilHandler then Handlers_range g hs is flat m
      else
        (case internal_handlers h of
           Some cs \<Rightarrow>
             (case sl_append g NilHandler m flat cs of
                (flat', m') \<Rightarrow> Handlers_range g hs is flat' m')
         | None \<Rightarrow>
             (case sl_append g NilHandler m flat [h] of
                (flat', m') \<Rightarrow> Handlers_range g hs is flat' m')))"

text \<open>
  What \<^verbatim>\<open>Handlers\<close> returns: a handler held directly in the interface value, or the
  slice type \<^verbatim>\<open>handlers\<close>, whose children are wherever its backing array is.
\<close>

datatype made = Direct handler | Stored slice

fun handler_of :: "handler list list \<Rightarrow> made \<Rightarrow> handler" where
  "handler_of m (Direct h) = h"
| "handler_of m (Stored s) = HandlersList (sl_read m s)"

text \<open>
  The switch on \<^verbatim>\<open>len(flat)\<close>; \<^verbatim>\<open>flat[0]\<close> and \<^verbatim>\<open>flat[1]\<close> are read under a case that
  puts them within the length.
\<close>

definition Handlers ::
  "(nat \<Rightarrow> nat \<Rightarrow> nat) \<Rightarrow> slice \<Rightarrow> handler list list \<Rightarrow> made \<times> handler list list" where
  "Handlers g hs m =
     (case Handlers_range g hs [0..<len hs] nil_slice m of
        (flat, m1) \<Rightarrow>
          if len flat = 0 then (Direct Handler0, m1)
          else if len flat = 1 then (Direct (sl_read m1 flat ! 0), m1)
          else if len flat = 2 then
            (Direct (Handler2 (sl_read m1 flat ! 0) (sl_read m1 flat ! 1)), m1)
          else if cap flat = len flat then (Stored flat, m1)
          else
            (case sl_make NilHandler (len flat) m1 of
               (trim, m2) \<Rightarrow> (Stored trim, sl_copy m2 trim flat)))"

text \<open>
  The call \<^verbatim>\<open>Handlers(x1, ..., xn)\<close> with the arguments written out: the language
  allocates the argument slice.
\<close>

definition Handlers_of ::
  "(nat \<Rightarrow> nat \<Rightarrow> nat) \<Rightarrow> handler list \<Rightarrow> handler list list \<Rightarrow> made \<times> handler list list" where
  "Handlers_of g xs m =
     Handlers g \<lparr>arr = length m, off = 0, len = length xs, cap = length xs\<rparr> (m @ [xs])"

subsection \<open>Reference notions used in the statements\<close>

text \<open>
  A sample environment for concrete instances: the foreign handler \<open>x\<close> is enabled from
  level \<open>x\<close> on, fails with its own error when \<open>x\<close> is even, counts the records
  handled in the world, and decorating it gives another foreign handler.
\<close>

definition sample_env :: "nat env" where
  "sample_env =
     \<lparr>l_Enabled = (\<lambda>x c l w. int x \<le> l),
      l_Handle = (\<lambda>x c r w. (if even x then Some (Err x) else None, Suc w)),
      l_WithAttrs = (\<lambda>x s. Leaf (x + 10)),
      l_WithGroup = (\<lambda>x n. Leaf (x + 100))\<rparr>"

definition sample_record :: Record where
  "sample_record =
     \<lparr>Time = 0, Message = ''hello world'', Level = 4, PC = 0, front_attrs = [(''user'', ''test'')],
      back_attrs = \<lparr>arr = 0, off = 0, len = 1, cap = 4\<rparr>\<rparr>"

text \<open>
  The dispatch discipline in the words of the specification, for the children \<open>hs\<close> of
  a composite: in sequence order each child's \<^verbatim>\<open>Enabled\<close> is asked at the record's
  level; an enabled child is served, with a clone of the record unless it is the last of
  the sequence, which is served with the record itself; a child that is not enabled is
  passed over. The result lists who was served, with what, and what it returned.
\<close>

fun dispatch ::
  "'w env \<Rightarrow> handler list \<Rightarrow> ctx \<Rightarrow> Record \<Rightarrow> 'w hstate \<Rightarrow>
     panic + ((handler \<times> Record \<times> error option) list \<times> 'w hstate)"
where
  "dispatch E [] c r s = Inr ([], s)"
| "dispatch E (h # hs) c r s =
     (case Enabled E h c (Level r) (fst s) of
        Inl p \<Rightarrow> Inl p
      | Inr b \<Rightarrow>
         if b then
           (case Handle E h c (if hs = [] then r else Clone r) s of
              Inl p \<Rightarrow> Inl p
            | Inr (e, s') \<Rightarrow>
               (case dispatch E hs c r s' of
                  Inl p \<Rightarrow> Inl p
                | Inr (ds, s'') \<Rightarrow> Inr ((h, if hs = [] then r else Clone r, e) # ds, s'')))
         else dispatch E hs c r s)"

text \<open>The errors returned by the children served, in the order of service.\<close>

definition causes :: "(handler \<times> Record \<times> error option) list \<Rightarrow> error list" where
  "causes ds = List.map_filter (\<lambda>d. snd (snd d)) ds"

text \<open>
  The propagation policy for the errors \<open>es\<close> of the children served, in a state: nil,
  the single error as it is, or a newly made aggregate of all of them in order.
\<close>

definition report :: "error list \<Rightarrow> 'w hstate \<Rightarrow> error option \<times> 'w hstate" where
  "report es s =
     (case es of
        [] \<Rightarrow> (None, s)
      | [e] \<Rightarrow> (Some e, s)
      | _ \<Rightarrow> (Some (JoinError (next_join s) es), (fst s, calls s, Suc (next_join s))))"

text \<open>
  The same discipline for foreign children \<open>xs\<close> only, as the list of calls they
  receive: the world changes with each call served.
\<close>

fun leaf_calls :: "'w env \<Rightarrow> leaf list \<Rightarrow> ctx \<Rightarrow> Record \<Rightarrow> 'w \<Rightarrow> (leaf \<times> Record) list" where
  "leaf_calls E [] c r w = []"
| "leaf_calls E (x # xs) c r w =
     (if l_Enabled E x c (Level r) w
      then (x, if xs = [] then r else Clone r)
             # leaf_calls E xs c r (snd (l_Handle E x c (if xs = [] then r else Clone r) w))
      else leaf_calls E xs c r w)"

text \<open>
  The errors the foreign children \<open>xs\<close> return when they are served by that
  discipline, in the order of service, and the world they leave behind.
\<close>

fun leaf_errors :: "'w env \<Rightarrow> leaf list \<Rightarrow> ctx \<Rightarrow> Record \<Rightarrow> 'w \<Rightarrow> error list" where
  "leaf_errors E [] c r w = []"
| "leaf_errors E (x # xs) c r w =
     (if l_Enabled E x c (Level r) w
      then (case fst (l_Handle E x c (if xs = [] then r else Clone r) w) of
              None \<Rightarrow> []
            | Some e \<Rightarrow> [e])
           @ leaf_errors E xs c r (snd (l_Handle E x c (if xs = [] then r else Clone r) w))
      else leaf_errors E xs c r w)"

fun leaf_world :: "'w env \<Rightarrow> leaf list \<Rightarrow> ctx \<Rightarrow> Record \<Rightarrow> 'w \<Rightarrow> 'w" where
  "leaf_world E [] c r w = w"
| "leaf_world E (x # xs) c r w =
     (if l_Enabled E x c (Level r) w
      then leaf_world E xs c r (snd (l_Handle E x c (if xs = [] then r else Clone r) w))
      else leaf_world E xs c r w)"

text \<open>
  A handler without a nil interface and without an empty \<^verbatim>\<open>handlers\<close> slice anywhere
  inside.
\<close>

fun sound :: "handler \<Rightarrow> bool" where
  "sound NilHandler = False"
| "sound (Leaf x) = True"
| "sound Handler0 = True"
| "sound (Handler2 h0 h1) = (sound h0 \<and> sound h1)"
| "sound (HandlersList hs) = (hs \<noteq> [] \<and> list_all sound hs)"

text \<open>The environment \<open>E\<close> with the errors its handlers return replaced by \<open>f\<close>.\<close>

definition with_errors ::
  "(leaf \<Rightarrow> ctx \<Rightarrow> Record \<Rightarrow> 'w \<Rightarrow> error option) \<Rightarrow> 'w env \<Rightarrow> 'w env" where
  "with_errors f E = E\<lparr>l_Handle := (\<lambda>x c r w. (f x c r w, snd (l_Handle E x c r w)))\<rparr>"

text \<open>
  Flattening in the words of the specification: an absent entry contributes nothing, a
  composite contributes its children, any other handler contributes itself; the
  representation is chosen by the number of handlers found.
\<close>

definition expand :: "handler \<Rightarrow> handler list" where
  "expand h =
     (if h = NilHandler then []
      else case internal_handlers h of Some cs \<Rightarrow> cs | None \<Rightarrow> [h])"

definition flatten :: "handler list \<Rightarrow> handler list" where
  "flatten xs = concat (map expand xs)"

definition represent :: "handler list \<Rightarrow> handler" where
  "represent fl =
     (case fl of
        [] \<Rightarrow> Handler0
      | [h] \<Rightarrow> h
      | [h0, h1] \<Rightarrow> Handler2 h0 h1
      | _ \<Rightarrow> HandlersList fl)"

text \<open>The handler returned by \<^verbatim>\<open>Handlers(x1, ..., xn)\<close>, its children read after the call.\<close>

definition Handlers_value :: "(nat \<Rightarrow> nat \<Rightarrow> nat) \<Rightarrow> handler list \<Rightarrow> handler list list \<Rightarrow> handler" where
  "Handlers_value g xs m = (case Handlers_of g xs m of (r, m') \<Rightarrow> handler_of m' r)"

text \<open>
  What \<^verbatim>\<open>flat\<close> is between two turns of the loop, when the memory held \<open>n0\<close> arrays
  at the call: still nil, or the whole of an array allocated since.
\<close>

definition flat_inv :: "nat \<Rightarrow> handler list list \<Rightarrow> slice \<Rightarrow> bool" where
  "flat_inv n0 m flat \<longleftrightarrow>
     (len flat = 0 \<and> cap flat = 0) \<or>
     (n0 \<le> arr flat \<and> arr flat < length m \<and> off flat = 0 \<and> len flat \<le> cap flat \<and>
      cap flat = length (m ! arr flat))"

text \<open>A handler that has no composite (and no nil) as a direct child.\<close>

definition one_level :: "handler \<Rightarrow> bool" where
  "one_level h \<longleftrightarrow>
     (case internal_handlers h of
        None \<Rightarrow> True
      | Some cs \<Rightarrow> list_all (\<lambda>k. k \<noteq> NilHandler \<and> internal_handlers k = None) cs)"

text \<open>Decorating a foreign handler gives a foreign handler.\<close>

definition leaf_closed :: "'w env \<Rightarrow> bool" where
  "leaf_closed E \<longleftrightarrow>
     (\<forall>x a. \<exists>y. l_WithAttrs E x a = Leaf y) \<and> (\<forall>x n. \<exists>y. l_WithGroup E x n = Leaf y)"

text \<open>
  The handlers that can be obtained through the public interface: what the factory
  returns when its arguments are nil, foreign or obtained before, and what
  \<^verbatim>\<open>WithAttrs\<close> and \<^verbatim>\<open>WithGroup\<close> of a composite so obtained return.
\<close>

inductive reachable :: "'w env \<Rightarrow> handler \<Rightarrow> bool" for E :: "'w env" where
  made:
    "sl_valid m hs \<Longrightarrow>
     \<forall>x\<in>set (sl_read m hs). internal_handlers x = None \<or> reachable E x \<Longrightarrow>
     Handlers g hs m = (r, m') \<Longrightarrow>
     reachable E (handler_of m' r)"
| decorated:
    "reachable E h \<Longrightarrow> internal_handlers h \<noteq> None \<Longrightarrow>
     WithAttrs E h a s = Inr (h', s') \<Longrightarrow>
     reachable E h'"
| grouped:
    "reachable E h \<Longrightarrow> internal_handlers h \<noteq> None \<Longrightarrow>
     WithGroup E h n = Inr h' \<Longrightarrow>
     reachable E h'"

text \<open>
  An environment of foreign handlers of the forwarding kind: \<^verbatim>\<open>WithGroup\<close> of such a
  handler returns what \<^verbatim>\<open>Handlers\<close> made of two others.
\<close>

definition forwarding_env :: "nat env" where
  "forwarding_env =
     \<lparr>l_Enabled = (\<lambda>x c l w. True),
      l_Handle = (\<lambda>x c r w. (None, Suc w)),
      l_WithAttrs = (\<lambda>x s. Leaf x),
      l_WithGroup = (\<lambda>x n. Handler2 (Leaf (x + 10)) (Leaf (x + 20)))\<rparr>"

text \<open>
  A sample call of the factory: an allocator that doubles, and an argument slice with a
  nil entry and a pair among foreign handlers.
\<close>

definition doubling :: "nat \<Rightarrow> nat \<Rightarrow> nat" where
  "doubling c n = 2 * n"

definition sample_args :: "handler list list" where
  "sample_args = [[Leaf 0, NilHandler, Handler2 (Leaf 1) (Leaf 2), Leaf 3]]"

definition sample_hs :: slice where
  "sample_hs = \<lparr>arr = 0, off = 0, len = 4, cap = 4\<rparr>"

definition sample_made :: "made \<times> handler list list" where
  "sample_made =
     (Stored \<lparr>arr = 3, off = 0, len = 4, cap = 4\<rparr>,
      [[Leaf 0, NilHandler, Handler2 (Leaf 1) (Leaf 2), Leaf 3],
       [Leaf 0, NilHandler],
       [Leaf 0, Leaf 1, Leaf 2, Leaf 3, NilHandler, NilHandler],
       [Leaf 0, Leaf 1, Leaf 2, Leaf 3]])"

text \<open>A second sample call: three foreign handlers, an allocator that grows to fit.\<close>

definition tight :: "nat \<Rightarrow> nat \<Rightarrow> nat" where
  "tight c n = n"

definition three_args :: "handler list list" where
  "three_args = [[Leaf 0, Leaf 1, Leaf 2]]"

definition three_hs :: slice where
  "three_hs = \<lparr>arr = 0, off = 0, len = 3, cap = 3\<rparr>"

text \<open>
  Memory \<open>m'\<close> extends memory \<open>m\<close> and differs from it, in the arrays \<open>m\<close> had, at
  most in the cells \<open>lo \<le> i < hi\<close> of array \<open>b\<close>.
\<close>

definition only_changed :: "'a list list \<Rightarrow> 'a list list \<Rightarrow> nat \<Rightarrow> nat \<Rightarrow> nat \<Rightarrow> bool" where
  "only_changed m m' b lo hi \<longleftrightarrow>
     length m \<le> length m' \<and>
     (\<forall>c<length m. length (m' ! c) = length (m ! c) \<and>
        (\<forall>i<length (m ! c). (c = b \<and> lo \<le> i \<and> i < hi) \<or> m' ! c ! i = m ! c ! i))"

text \<open>
  A slice handed out by a \<^verbatim>\<open>WithAttrs\<close> call that began with \<open>attrs\<close> in memory \<open>m\<close>:
  it lies in the spare capacity of \<open>attrs\<close>, behind its length, or in an array allocated
  during the call.
\<close>

definition carved :: "'a list list \<Rightarrow> slice \<Rightarrow> slice \<Rightarrow> bool" where
  "carved m attrs s \<longleftrightarrow>
     (arr s = arr attrs \<and> off attrs + len attrs \<le> off s \<and>
      off s + cap s \<le> off attrs + cap attrs) \<or>
     length m \<le> arr s"

text \<open>A sample attribute memory: one attribute and room for one more.\<close>

definition sample_attrs_mem :: "attr list list" where
  "sample_attrs_mem = [[(''a'', ''1''), zero_attr]]"

definition sample_attrs :: slice where
  "sample_attrs = \<lparr>arr = 0, off = 0, len = 1, cap = 2\<rparr>"

text \<open>A sample attribute slice without spare capacity.\<close>

definition full_attrs_mem :: "attr list list" where
  "full_attrs_mem = [[(''a'', ''1'')]]"

definition full_attrs :: slice where
  "full_attrs = \<lparr>arr = 0, off = 0, len = 1, cap = 1\<rparr>"

text \<open>
  The slices of a list share no cell pairwise; a slice that begins where \<open>attrs\<close> begins;
  and what holds of the slices \<open>new\<close> handed to foreign handlers by a \<^verbatim>\<open>WithAttrs\<close> call
  that began with \<open>attrs\<close> in memory \<open>m\<close> and ended in memory \<open>m'\<close>.
\<close>

definition all_disjoint :: "slice list \<Rightarrow> bool" where
  "all_disjoint ss \<longleftrightarrow> (\<forall>i j. i < j \<longrightarrow> j < length ss \<longrightarrow> sl_disjoint (ss ! i) (ss ! j))"

definition holds_front :: "slice \<Rightarrow> slice \<Rightarrow> bool" where
  "holds_front attrs s \<longleftrightarrow>
     arr s = arr attrs \<and> off s = off attrs \<and> len s = len attrs \<and> cap s \<le> cap attrs"

definition leaf_slices_ok ::
  "attr list list \<Rightarrow> slice \<Rightarrow> attr list list \<Rightarrow> (leaf \<times> slice) list \<Rightarrow> bool" where
  "leaf_slices_ok m attrs m' new \<longleftrightarrow>
     only_changed m m' (arr attrs) (off attrs + len attrs) (off attrs + cap attrs) \<and>
     (\<forall>p\<in>set new. sl_valid m' (snd p) \<and> sl_read m' (snd p) = sl_read m attrs \<and>
        len (snd p) = len attrs \<and> (holds_front attrs (snd p) \<or> carved m attrs (snd p))) \<and>
     all_disjoint (map snd new)"

definition isolating :: "'w env \<Rightarrow> handler \<Rightarrow> bool" where
  "isolating E h \<longleftrightarrow>
     (\<forall>attrs m tr h' m' tr'.
        sl_valid m attrs \<longrightarrow> WithAttrs E h attrs (m, tr) = Inr (h', (m', tr')) \<longrightarrow>
        (\<exists>new. tr' = tr @ new \<and> leaf_slices_ok m attrs m' new))"

section \<open>Enabled\<close>

lemma handlers_Enabled_disjunction:
  "\<forall>k\<in>set hs. \<exists>b. Enabled E k c l w = Inr b \<Longrightarrow>
   handlers_Enabled E hs c l w = Inr (\<exists>k\<in>set hs. Enabled E k c l w = Inr True)"
  by (induction hs) auto

text \<open>
  C3. A composite is enabled exactly when one of its children is: for the children
  \<open>hs\<close> of any composite (none for \<^verbatim>\<open>handler0\<close>, two for \<^verbatim>\<open>handler2\<close>, any number
  for \<^verbatim>\<open>handlers\<close>) whose own \<^verbatim>\<open>Enabled\<close> calls return, the composite's \<^verbatim>\<open>Enabled\<close> is
  the disjunction of theirs, hence false for no child.
\<close>

theorem composite_Enabled_is_disjunction:
  assumes "internal_handlers h = Some hs"
    and "\<forall>k\<in>set hs. \<exists>b. Enabled E k c l w = Inr b"
  shows "Enabled E h c l w = Inr (\<exists>k\<in>set hs. Enabled E k c l w = Inr True)"
proof (cases h)
  case (Handler2 h0 h1)
  with assms show ?thesis by auto
next
  case (HandlersList ks)
  with assms show ?thesis by (simp add: handlers_Enabled_disjunction)
qed (use assms in auto)

theorem composite_Enabled_is_disjunction_witness:
  "Enabled sample_env (HandlersList [Leaf 5, Leaf 3, Leaf 7]) 0 4 0 = Inr True
   \<and> Enabled sample_env (HandlersList [Leaf 5, Leaf 6, Leaf 7]) 0 4 0 = Inr False
   \<and> Enabled sample_env (Handler2 (Leaf 5) (Leaf 4)) 0 4 0 = Inr True
   \<and> Enabled sample_env Handler0 0 4 0 = Inr False"
  using composite_Enabled_is_disjunction
          [of "HandlersList [Leaf 5, Leaf 3, Leaf 7]" "[Leaf 5, Leaf 3, Leaf 7]" sample_env 0 4 0]
        composite_Enabled_is_disjunction
          [of "HandlersList [Leaf 5, Leaf 6, Leaf 7]" "[Leaf 5, Leaf 6, Leaf 7]" sample_env 0 4 0]
        composite_Enabled_is_disjunction
          [of "Handler2 (Leaf 5) (Leaf 4)" "[Leaf 5, Leaf 4]" sample_env 0 4 0]
        composite_Enabled_is_disjunction [of Handler0 "[]" sample_env 0 4 0]
  by (simp add: sample_env_def)

section \<open>Handle\<close>

text \<open>Both \<^verbatim>\<open>Handle\<close> methods follow the dispatch discipline and the propagation policy.\<close>

lemma causes_simps:
  "causes [] = []"
  "causes ((h, a, e) # ds) = (case e of None \<Rightarrow> causes ds | Some x \<Rightarrow> x # causes ds)"
  by (simp_all add: causes_def List.map_filter_simps split: option.splits)

lemma Join_in_many:
  "Join_in (Some a # Some b # map Some es) s =
     (Some (JoinError (next_join s) (a # b # es)), (fst s, calls s, Suc (next_join s)))"
  by (simp add: Join_in_def errors_Join_def List.map_filter_def comp_def)

lemma report_cases:
  "(es = [] \<longrightarrow> report es s = (None, s)) \<and>
   (\<forall>x. es = [x] \<longrightarrow> report es s = (Some x, s)) \<and>
   (2 \<le> length es \<longrightarrow>
      report es s = (Some (JoinError (next_join s) es), (fst s, calls s, Suc (next_join s))))"
  by (cases es rule: list.exhaust [case_product list.exhaust]) (auto simp: report_def split: list.splits)

lemma report_effects: "fst (snd (report es s)) = fst s \<and> calls (snd (report es s)) = calls s"
  by (simp add: report_def split: list.splits)

lemma report_shape: "\<exists>e a'. report es (w, tr, a) = (e, (w, tr, a'))"
  by (simp add: report_def split: list.splits)

lemma report_pair:
  "report (List.map_filter id [e0, e1]) s =
     (if e0 = None then (e1, s) else if e1 = None then (e0, s) else Join_in [e0, e1] s)"
  by (cases e0; cases e1)
     (simp_all add: report_def Join_in_def errors_Join_def List.map_filter_simps)

lemma Handler2_dispatch:
  "Handle E (Handler2 h0 h1) c r s =
     (case dispatch E [h0, h1] c r s of
        Inl p \<Rightarrow> Inl p
      | Inr (ds, s') \<Rightarrow> Inr (report (causes ds) s'))"
proof (cases "Enabled E h0 c (Level r) (fst s)")
  case (Inl p)
  then show ?thesis by simp
next
  case b0: (Inr b0)
  show ?thesis
  proof (cases "if b0 then Handle E h0 c (Clone r) s else Inr (None, s)")
    case (Inl p)
    with b0 show ?thesis by (cases b0) simp_all
  next
    case (Inr res)
    obtain e0 s1 where res: "res = (e0, s1)" by (cases res)
    note h0 = Inr [unfolded res]
    show ?thesis
    proof (cases "Enabled E h1 c (Level r) (fst s1)")
      case (Inl p)
      with b0 h0 show ?thesis by (cases b0) simp_all
    next
      case b1: (Inr b1)
      show ?thesis
      proof (cases "if b1 then Handle E h1 c r s1 else Inr (None, s1)")
        case (Inl p)
        with b0 h0 b1 show ?thesis by (cases b0; cases b1) simp_all
      next
        case (Inr res1)
        obtain e1 s2 where res1: "res1 = (e1, s2)" by (cases res1)
        note h1 = Inr [unfolded res1]
        from b0 h0 b1 h1 show ?thesis
          by (cases b0; cases b1; cases e0; cases e1)
             (simp_all add: causes_simps report_def Join_in_def errors_Join_def
                            List.map_filter_simps)
      qed
    qed
  qed
qed

lemma handlers_Handle_last:
  "handlers_Handle E [h] c r errs s =
     (case dispatch E [h] c r s of
        Inl p \<Rightarrow> Inl p
      | Inr (ds, s') \<Rightarrow> Inr (errs @ causes ds, s'))"
  by (simp add: causes_simps split: sum.splits option.splits)

lemma handlers_Handle_dispatch:
  "hs \<noteq> [] \<Longrightarrow>
   handlers_Handle E hs c r errs s =
     (case dispatch E hs c r s of
        Inl p \<Rightarrow> Inl p
      | Inr (ds, s') \<Rightarrow> Inr (errs @ causes ds, s'))"
proof (induction hs arbitrary: errs s)
  case Nil
  then show ?case by simp
next
  case (Cons h hs)
  show ?case
  proof (cases hs)
    case Nil
    then show ?thesis by (simp only: handlers_Handle_last)
  next
    case (Cons h' hs')
    have IH: "handlers_Handle E (h' # hs') c r errs' s' =
       (case dispatch E (h' # hs') c r s' of
          Inl p \<Rightarrow> Inl p
        | Inr (ds, s'') \<Rightarrow> Inr (errs' @ causes ds, s''))" for errs' s'
      using Cons.IH [of errs' s'] Cons by simp
    show ?thesis
    proof (cases "Enabled E h c (Level r) (fst s)")
      case (Inl p)
      then show ?thesis unfolding Cons by simp
    next
      case (Inr b)
      show ?thesis
      proof (cases b)
        case False
        with Inr show ?thesis unfolding Cons by (simp add: IH)
      next
        case True
        show ?thesis
        proof (cases "Handle E h c (Clone r) s")
          case (Inl p)
          with Inr True show ?thesis unfolding Cons by simp
        next
          case hres: (Inr res)
          obtain e s1 where res: "res = (e, s1)" by (cases res)
          show ?thesis
          proof (cases "dispatch E (h' # hs') c r s1")
            case (Inl p)
            with Inr True hres res show ?thesis unfolding Cons by (simp add: IH)
          next
            case dres: (Inr res')
            obtain ds s2 where res': "res' = (ds, s2)" by (cases res')
            from Inr True hres res dres res' show ?thesis unfolding Cons
              by (cases e) (simp_all add: IH causes_simps)
          qed
        qed
      qed
    qed
  qed
qed

lemma report_switch:
  "(case errs of [] \<Rightarrow> (None, s) | [e] \<Rightarrow> (Some e, s) | _ \<Rightarrow> Join_in (map Some errs) s) =
     report errs s"
  by (simp add: report_def Join_in_many split: list.splits)

lemma handlers_dispatch:
  assumes "ks \<noteq> []"
  shows "Handle E (HandlersList ks) c r s =
     (case dispatch E ks c r s of
        Inl p \<Rightarrow> Inl p
      | Inr (ds, s') \<Rightarrow> Inr (report (causes ds) s'))"
  by (simp add: handlers_Handle_dispatch [OF assms] report_switch split: sum.splits)

lemma Handle_dispatch:
  assumes "internal_handlers h = Some hs" and "h \<noteq> HandlersList []"
  shows "Handle E h c r s =
     (case dispatch E hs c r s of
        Inl p \<Rightarrow> Inl p
      | Inr (ds, s') \<Rightarrow> Inr (report (causes ds) s'))"
proof (cases h)
  case (Handler2 h0 h1)
  with assms have hs: "hs = [h0, h1]" by simp
  show ?thesis unfolding Handler2 hs by (rule Handler2_dispatch)
next
  case (HandlersList ks)
  with assms have "hs = ks" "ks \<noteq> []" by auto
  then show ?thesis unfolding HandlersList by (simp add: handlers_dispatch del: Handle.simps)
next
  case Handler0
  with assms show ?thesis by (auto simp: causes_simps report_def)
qed (use assms in auto)

lemma same_error_refl: "same_error x x"
  by (cases x) simp_all

lemma errors_Is_refl: "errors_Is x x"
  by (cases x) (simp_all add: same_error_refl)

lemma errors_Is_member: "x \<in> set es \<Longrightarrow> errors_Is (JoinError a es) x"
  by (auto simp: list_ex_iff intro: errors_Is_refl)

lemma dispatch_leaves:
  "\<exists>ds. dispatch E (map Leaf xs) c r (w, tr, a) =
          Inr (ds, (leaf_world E xs c r w, tr @ leaf_calls E xs c r w, a)) \<and>
        causes ds = leaf_errors E xs c r w"
proof (induction xs arbitrary: w tr)
  case Nil
  show ?case by (simp add: causes_simps)
next
  case (Cons x xs)
  show ?case
  proof (cases "l_Enabled E x c (Level r) w")
    case False
    with Cons.IH [of w tr] show ?thesis by simp
  next
    case True
    define arg where "arg = (if xs = [] then r else Clone r)"
    obtain e w1 where h: "l_Handle E x c arg w = (e, w1)" by (cases "l_Handle E x c arg w")
    from Cons.IH [of w1 "tr @ [(x, arg)]"] obtain ds where
      d: "dispatch E (map Leaf xs) c r (w1, tr @ [(x, arg)], a) =
         Inr (ds, (leaf_world E xs c r w1, (tr @ [(x, arg)]) @ leaf_calls E xs c r w1, a))"
      and k: "causes ds = leaf_errors E xs c r w1" by blast
    from True h d have "dispatch E (map Leaf (x # xs)) c r (w, tr, a) =
        Inr ((Leaf x, arg, e) # ds,
             (leaf_world E (x # xs) c r w, tr @ leaf_calls E (x # xs) c r w, a))"
      by (simp add: arg_def)
    moreover from True h k have "causes ((Leaf x, arg, e) # ds) = leaf_errors E (x # xs) c r w"
      by (cases e) (simp_all add: causes_simps arg_def)
    ultimately show ?thesis by blast
  qed
qed

lemma Handle_leaves:
  assumes "internal_handlers h = Some (map Leaf xs)" and "h \<noteq> HandlersList []"
  shows "Handle E h c r s =
     Inr (report (leaf_errors E xs c r (fst s))
            (leaf_world E xs c r (fst s), calls s @ leaf_calls E xs c r (fst s), next_join s))"
proof -
  obtain w tr a where s: "s = (w, tr, a)" by (cases s)
  from dispatch_leaves [of E xs c r w tr a] obtain ds where
    "dispatch E (map Leaf xs) c r (w, tr, a) =
          Inr (ds, (leaf_world E xs c r w, tr @ leaf_calls E xs c r w, a))"
    and "causes ds = leaf_errors E xs c r w" by blast
  with Handle_dispatch [OF assms, of E c r s] show ?thesis by (simp add: s)
qed

lemma leaf_calls_with_errors: "leaf_calls (with_errors f E) xs c r w = leaf_calls E xs c r w"
  by (induction xs arbitrary: w) (simp_all add: with_errors_def)

lemma leaf_world_with_errors: "leaf_world (with_errors f E) xs c r w = leaf_world E xs c r w"
  by (induction xs arbitrary: w) (simp_all add: with_errors_def)

lemma leaf_errors_with_errors:
  "leaf_errors (with_errors (\<lambda>x c r w. g x) E) xs c r w =
     List.map_filter g (map fst (leaf_calls E xs c r w))"
  by (induction xs arbitrary: w)
     (simp_all add: with_errors_def List.map_filter_simps split: option.splits)

lemma leaf_calls_subset:
  "xs \<noteq> [] \<Longrightarrow>
   set (leaf_calls E xs c r w) \<subseteq> (\<lambda>x. (x, Clone r)) ` set (butlast xs) \<union> {(last xs, r)}"
  by (induction xs arbitrary: w) auto

lemma leaf_calls_filter:
  "\<forall>x w1. l_Enabled E x c (Level r) w1 = l_Enabled E x c (Level r) w0 \<Longrightarrow>
   map fst (leaf_calls E xs c r w) = filter (\<lambda>x. l_Enabled E x c (Level r) w0) xs"
  by (induction xs arbitrary: w) auto

lemma dispatch_args:
  "dispatch E hs c r s = Inr (ds, s') \<Longrightarrow>
   \<forall>d\<in>set ds. (fst d \<in> set (butlast hs) \<and> fst (snd d) = Clone r) \<or>
              (fst d = last hs \<and> fst (snd d) = r)"
proof (induction hs arbitrary: s ds)
  case Nil
  then show ?case by simp
next
  case (Cons h hs)
  show ?case
  proof (cases "Enabled E h c (Level r) (fst s)")
    case (Inl p)
    with Cons.prems show ?thesis by simp
  next
    case (Inr b)
    show ?thesis
    proof (cases b)
      case False
      with Inr Cons.prems have d: "dispatch E hs c r s = Inr (ds, s')" by simp
      then have "hs \<noteq> []" if "ds \<noteq> []" using that by (cases hs) auto
      with Cons.IH [OF d] show ?thesis by (cases "ds = []") auto
    next
      case True
      with Inr Cons.prems obtain e s1 ds1 where
        d: "dispatch E hs c r s1 = Inr (ds1, s')"
        and ds: "ds = (h, if hs = [] then r else Clone r, e) # ds1"
        by (auto split: sum.splits prod.splits)
      from d have "hs \<noteq> []" if "ds1 \<noteq> []" using that by (cases hs) auto
      with Cons.IH [OF d] ds show ?thesis by (cases "ds1 = []") auto
    qed
  qed
qed

lemma Clone_append_fresh:
  assumes "ys \<noteq> []"
  shows "arr (fst (sl_append g z m (back_attrs (Clone r)) ys)) = length m \<and>
         take (length m) (snd (sl_append g z m (back_attrs (Clone r)) ys)) = m"
  using assms by (simp add: sl_append_def Clone_def Clip_def Let_def)

lemma Enabled_with_errors:
  "Enabled (with_errors f E) h c l w = Enabled E h c l w"
  "handlers_Enabled (with_errors f E) hs c l w = handlers_Enabled E hs c l w"
  by (induction E h c l w and E hs c l w rule: Enabled_handlers_Enabled.induct)
     (simp_all add: with_errors_def split: sum.splits)

lemma sound_Enabled:
  "sound h \<Longrightarrow> \<exists>b. Enabled E h c l w = Inr b"
proof (induction h)
  case (HandlersList hs)
  then have "\<forall>k\<in>set hs. \<exists>b. Enabled E k c l w = Inr b" by (auto simp: list_all_iff)
  then have "\<exists>b. handlers_Enabled E hs c l w = Inr b"
    by (induction hs) auto
  then show ?case by simp
qed auto

lemma sound_children:
  "sound h \<Longrightarrow> internal_handlers h = Some hs \<Longrightarrow> h \<noteq> HandlersList [] \<and> (\<forall>k\<in>set hs. sound k)"
  by (cases h) (auto simp: list_all_iff)

text \<open>
  Two runs of \<^verbatim>\<open>Handle\<close>, one with the errors of the foreign handlers replaced, from
  states with the same world and the same log: both return, and the world and the log
  are the same again. The addresses of the aggregates made may differ.
\<close>

lemma dispatch_fail_open:
  assumes "\<forall>h\<in>set hs. sound h \<and>
      (\<forall>c r s t. fst s = fst t \<longrightarrow> calls s = calls t \<longrightarrow>
         (\<exists>e s' e' t'. Handle E h c r s = Inr (e, s') \<and>
            Handle (with_errors f E) h c r t = Inr (e', t') \<and>
            fst s' = fst t' \<and> calls s' = calls t'))"
  shows "fst s = fst t \<Longrightarrow> calls s = calls t \<Longrightarrow>
     \<exists>ds s' ds' t'. dispatch E hs c r s = Inr (ds, s') \<and>
        dispatch (with_errors f E) hs c r t = Inr (ds', t') \<and>
        fst s' = fst t' \<and> calls s' = calls t' \<and>
        map fst ds' = map fst ds \<and> map (\<lambda>d. fst (snd d)) ds' = map (\<lambda>d. fst (snd d)) ds"
  using assms
proof (induction hs arbitrary: s t)
  case Nil
  then show ?case by simp
next
  case (Cons h hs)
  from Cons.prems(3) have kids: "\<forall>k\<in>set hs. sound k \<and>
      (\<forall>c r s t. fst s = fst t \<longrightarrow> calls s = calls t \<longrightarrow>
         (\<exists>e s' e' t'. Handle E k c r s = Inr (e, s') \<and>
            Handle (with_errors f E) k c r t = Inr (e', t') \<and>
            fst s' = fst t' \<and> calls s' = calls t'))"
    by simp
  from Cons.prems(3) have snd: "sound h"
    and hd: "\<forall>c r s t. fst s = fst t \<longrightarrow> calls s = calls t \<longrightarrow>
         (\<exists>e s' e' t'. Handle E h c r s = Inr (e, s') \<and>
            Handle (with_errors f E) h c r t = Inr (e', t') \<and>
            fst s' = fst t' \<and> calls s' = calls t')"
    by simp_all
  from sound_Enabled [OF snd, of E c "Level r" "fst s"]
  obtain b where b: "Enabled E h c (Level r) (fst s) = Inr b" ..
  with Cons.prems(1) have b': "Enabled (with_errors f E) h c (Level r) (fst t) = Inr b"
    by (simp add: Enabled_with_errors)
  show ?case
  proof (cases b)
    case False
    with b b' Cons.IH [OF Cons.prems(1,2) kids] show ?thesis by simp
  next
    case True
    define arg where "arg = (if hs = [] then r else Clone r)"
    from hd [rule_format, OF Cons.prems(1,2), of c arg] obtain e s1 e' t1 where
      h: "Handle E h c arg s = Inr (e, s1)"
      and h': "Handle (with_errors f E) h c arg t = Inr (e', t1)"
      and eq: "fst s1 = fst t1" "calls s1 = calls t1"
      by blast
    from Cons.IH [OF eq kids] obtain ds s' ds' t' where
      d: "dispatch E hs c r s1 = Inr (ds, s')"
      and d': "dispatch (with_errors f E) hs c r t1 = Inr (ds', t')"
      and fin: "fst s' = fst t'" "calls s' = calls t'"
      and who: "map fst ds' = map fst ds" "map (\<lambda>d. fst (snd d)) ds' = map (\<lambda>d. fst (snd d)) ds"
      by blast
    from b True h d have 1: "dispatch E (h # hs) c r s = Inr ((h, arg, e) # ds, s')"
      by (simp add: arg_def)
    from b' True h' d' have 2:
      "dispatch (with_errors f E) (h # hs) c r t = Inr ((h, arg, e') # ds', t')"
      by (simp add: arg_def)
    from who have 3: "map fst ((h, arg, e') # ds') = map fst ((h, arg, e) # ds)"
      "map (\<lambda>d. fst (snd d)) ((h, arg, e') # ds') = map (\<lambda>d. fst (snd d)) ((h, arg, e) # ds)"
      by simp_all
    from 1 2 3 fin show ?thesis by blast
  qed
qed

lemma composite_fail_open:
  assumes "internal_handlers h = Some hs" and "h \<noteq> HandlersList []"
    and "\<forall>h\<in>set hs. sound h \<and>
      (\<forall>c r s t. fst s = fst t \<longrightarrow> calls s = calls t \<longrightarrow>
         (\<exists>e s' e' t'. Handle E h c r s = Inr (e, s') \<and>
            Handle (with_errors f E) h c r t = Inr (e', t') \<and>
            fst s' = fst t' \<and> calls s' = calls t'))"
    and "fst s = fst t" and "calls s = calls t"
  shows "\<exists>e s' e' t'. Handle E h c r s = Inr (e, s') \<and>
            Handle (with_errors f E) h c r t = Inr (e', t') \<and>
            fst s' = fst t' \<and> calls s' = calls t'"
proof -
  from dispatch_fail_open [OF assms(3,4,5), of c r] obtain ds s1 ds' t1 where
    d: "dispatch E hs c r s = Inr (ds, s1)"
    and d': "dispatch (with_errors f E) hs c r t = Inr (ds', t1)"
    and eq: "fst s1 = fst t1" "calls s1 = calls t1"
    by blast
  have 1: "Handle E h c r s = Inr (report (causes ds) s1)"
    by (simp add: Handle_dispatch [OF assms(1,2)] d)
  have 2: "Handle (with_errors f E) h c r t = Inr (report (causes ds') t1)"
    by (simp add: Handle_dispatch [OF assms(1,2)] d')
  obtain e s' where r1: "report (causes ds) s1 = (e, s')" by (cases "report (causes ds) s1")
  obtain e' t' where r2: "report (causes ds') t1 = (e', t')" by (cases "report (causes ds') t1")
  from report_effects [of "causes ds" s1] r1 have "fst s' = fst s1" "calls s' = calls s1"
    by simp_all
  moreover from report_effects [of "causes ds'" t1] r2 have "fst t' = fst t1" "calls t' = calls t1"
    by simp_all
  ultimately have "fst s' = fst t'" "calls s' = calls t'" using eq by simp_all
  with 1 2 r1 r2 show ?thesis by simp
qed

lemma Handle_fail_open_states:
  assumes "sound h"
  shows "fst s = fst t \<Longrightarrow> calls s = calls t \<Longrightarrow>
     \<exists>e s' e' t'. Handle E h c r s = Inr (e, s') \<and>
        Handle (with_errors f E) h c r t = Inr (e', t') \<and>
        fst s' = fst t' \<and> calls s' = calls t'"
  using assms
proof (induction h arbitrary: c r s t)
  case NilHandler
  then show ?case by simp
next
  case (Leaf x)
  then show ?case by (simp add: with_errors_def split: prod.splits)
next
  case Handler0
  then show ?case by simp
next
  case (Handler2 h0 h1)
  have "internal_handlers (Handler2 h0 h1) = Some [h0, h1]" by simp
  moreover have "Handler2 h0 h1 \<noteq> HandlersList []" by simp
  moreover from Handler2.IH Handler2.prems(3) have "\<forall>h\<in>set [h0, h1]. sound h \<and>
      (\<forall>c r s t. fst s = fst t \<longrightarrow> calls s = calls t \<longrightarrow>
         (\<exists>e s' e' t'. Handle E h c r s = Inr (e, s') \<and>
            Handle (with_errors f E) h c r t = Inr (e', t') \<and>
            fst s' = fst t' \<and> calls s' = calls t'))" by simp
  ultimately show ?case using Handler2.prems(1,2) by (rule composite_fail_open)
next
  case (HandlersList hs)
  have "internal_handlers (HandlersList hs) = Some hs" by simp
  moreover from HandlersList.prems have "HandlersList hs \<noteq> HandlersList []" by auto
  moreover from HandlersList.IH HandlersList.prems(3) have "\<forall>h\<in>set hs. sound h \<and>
      (\<forall>c r s t. fst s = fst t \<longrightarrow> calls s = calls t \<longrightarrow>
         (\<exists>e s' e' t'. Handle E h c r s = Inr (e, s') \<and>
            Handle (with_errors f E) h c r t = Inr (e', t') \<and>
            fst s' = fst t' \<and> calls s' = calls t'))"
    by (simp add: list_all_iff)
  ultimately show ?case using HandlersList.prems(1,2) by (rule composite_fail_open)
qed

lemma sound_Handle_returns: "sound h \<Longrightarrow> \<exists>res. Handle E h c r s = Inr res"
  using Handle_fail_open_states [where h = h and s = s and t = s and E = E and c = c and r = r
      and f = undefined] by auto

text \<open>
  C2. For a \<^verbatim>\<open>Handle\<close> call on a composite with children \<open>hs\<close>. If the call returns,
  then with \<open>causes ds\<close> the errors returned by the children served, in the order of
  service: if there is none the result is nil; if there is exactly one the result is
  that very error, unwrapped, and \<^verbatim>\<open>errors.Is\<close> of it against itself holds; if there are
  two or more the result is a newly made aggregate of exactly these errors in that order,
  and \<^verbatim>\<open>errors.Is\<close> of the aggregate against each of them holds. The call does return
  when the composite has no nil child and no empty list inside. When the children are
  the foreign handlers \<open>xs\<close>, of a pair or of a list, the call returns and the same is
  said of \<open>leaf_errors\<close>, the errors these handlers return when served in turn.
\<close>

theorem Handle_error_propagation:
  assumes "internal_handlers h = Some hs"
  shows "(\<forall>e s'. Handle E h c r s = Inr (e, s') \<longrightarrow>
       (\<exists>ds s1. dispatch E hs c r s = Inr (ds, s1) \<and>
          (causes ds = [] \<longrightarrow> e = None) \<and>
          (\<forall>x. causes ds = [x] \<longrightarrow> e = Some x \<and> errors_Is x x) \<and>
          (2 \<le> length (causes ds) \<longrightarrow>
             e = Some (JoinError (next_join s1) (causes ds)) \<and>
             (\<forall>x\<in>set (causes ds). errors_Is (JoinError (next_join s1) (causes ds)) x)))) \<and>
     (sound h \<longrightarrow> (\<exists>e s'. Handle E h c r s = Inr (e, s'))) \<and>
     (\<forall>xs. hs = map Leaf xs \<longrightarrow> h \<noteq> HandlersList [] \<longrightarrow>
        (\<exists>e s'. Handle E h c r s = Inr (e, s') \<and>
           (leaf_errors E xs c r (fst s) = [] \<longrightarrow> e = None) \<and>
           (\<forall>x. leaf_errors E xs c r (fst s) = [x] \<longrightarrow> e = Some x \<and> errors_Is x x) \<and>
           (2 \<le> length (leaf_errors E xs c r (fst s)) \<longrightarrow>
              e = Some (JoinError (next_join s) (leaf_errors E xs c r (fst s))) \<and>
              (\<forall>x\<in>set (leaf_errors E xs c r (fst s)).
                 errors_Is (JoinError (next_join s) (leaf_errors E xs c r (fst s))) x))))"
proof (intro conjI allI impI)
  fix e s'
  assume run: "Handle E h c r s = Inr (e, s')"
  then have "h \<noteq> HandlersList []" by auto
  from Handle_dispatch [OF assms this, of E c r s] run
  obtain ds s1 where ds: "dispatch E hs c r s = Inr (ds, s1)"
    and e: "(e, s') = report (causes ds) s1"
    by (auto split: sum.splits)
  from report_cases [of "causes ds" s1] e
  have "(causes ds = [] \<longrightarrow> e = None) \<and>
        (\<forall>x. causes ds = [x] \<longrightarrow> e = Some x) \<and>
        (2 \<le> length (causes ds) \<longrightarrow> e = Some (JoinError (next_join s1) (causes ds)))"
    by (metis fst_conv)
  with ds show "\<exists>ds s1. dispatch E hs c r s = Inr (ds, s1) \<and>
          (causes ds = [] \<longrightarrow> e = None) \<and>
          (\<forall>x. causes ds = [x] \<longrightarrow> e = Some x \<and> errors_Is x x) \<and>
          (2 \<le> length (causes ds) \<longrightarrow>
             e = Some (JoinError (next_join s1) (causes ds)) \<and>
             (\<forall>x\<in>set (causes ds). errors_Is (JoinError (next_join s1) (causes ds)) x))"
    using errors_Is_refl errors_Is_member by blast
next
  assume "sound h"
  from sound_Handle_returns [OF this, of E c r s]
  show "\<exists>e s'. Handle E h c r s = Inr (e, s')" by auto
next
  fix xs
  assume xs: "hs = map Leaf xs" and ne: "h \<noteq> HandlersList []"
  define es where "es = leaf_errors E xs c r (fst s)"
  define t where "t = (leaf_world E xs c r (fst s), calls s @ leaf_calls E xs c r (fst s), next_join s)"
  have nj: "next_join t = next_join s" by (simp add: t_def)
  from Handle_leaves [OF assms [unfolded xs] ne, of E c r s]
  have run: "Handle E h c r s = Inr (report es t)" by (simp add: es_def t_def)
  obtain e s' where res: "report es t = (e, s')" by (cases "report es t")
  from report_cases [of es t] res nj
  have k: "(es = [] \<longrightarrow> e = None) \<and>
        (\<forall>x. es = [x] \<longrightarrow> e = Some x) \<and>
        (2 \<le> length es \<longrightarrow> e = Some (JoinError (next_join s) es))"
    by (metis fst_conv)
  from run res have 0: "Handle E h c r s = Inr (e, s')" by simp
  from k have 1: "es = [] \<longrightarrow> e = None" by (rule conjunct1)
  from k have 2: "\<forall>x. es = [x] \<longrightarrow> e = Some x \<and> errors_Is x x"
    by (simp add: errors_Is_refl)
  from k have 3: "2 \<le> length es \<longrightarrow>
              e = Some (JoinError (next_join s) es) \<and>
              (\<forall>x\<in>set es. errors_Is (JoinError (next_join s) es) x)"
    using errors_Is_member [of _ es "next_join s"] by blast
  from 0 1 2 3 have "\<exists>e s'. Handle E h c r s = Inr (e, s') \<and>
           (es = [] \<longrightarrow> e = None) \<and>
           (\<forall>x. es = [x] \<longrightarrow> e = Some x \<and> errors_Is x x) \<and>
           (2 \<le> length es \<longrightarrow>
              e = Some (JoinError (next_join s) es) \<and>
              (\<forall>x\<in>set es. errors_Is (JoinError (next_join s) es) x))"
    by (intro exI conjI)
  then show "\<exists>e s'. Handle E h c r s = Inr (e, s') \<and>
           (leaf_errors E xs c r (fst s) = [] \<longrightarrow> e = None) \<and>
           (\<forall>x. leaf_errors E xs c r (fst s) = [x] \<longrightarrow> e = Some x \<and> errors_Is x x) \<and>
           (2 \<le> length (leaf_errors E xs c r (fst s)) \<longrightarrow>
              e = Some (JoinError (next_join s) (leaf_errors E xs c r (fst s))) \<and>
              (\<forall>x\<in>set (leaf_errors E xs c r (fst s)).
                 errors_Is (JoinError (next_join s) (leaf_errors E xs c r (fst s))) x))"
    unfolding es_def .
qed

theorem Handle_error_propagation_witness:
  "internal_handlers (Handler2 (Leaf 0) (Leaf 2)) = Some (map Leaf [0, 2]) \<and>
   Handler2 (Leaf 0) (Leaf 2) \<noteq> HandlersList [] \<and>
   sound (Handler2 (Leaf 0) (Leaf 2)) \<and>
   Handle sample_env (Handler2 (Leaf 0) (Leaf 2)) 0 sample_record (0, [], 7) =
     Inr (Some (JoinError 7 [Err 0, Err 2]),
          (2, [(0, Clone sample_record), (2, sample_record)], 8)) \<and>
   Handle sample_env (Handler2 (Leaf 0) (Leaf 1)) 0 sample_record (0, [], 7) =
     Inr (Some (Err 0), (2, [(0, Clone sample_record), (1, sample_record)], 7)) \<and>
   Handle sample_env (Handler2 (Leaf 1) (Leaf 3)) 0 sample_record (0, [], 7) =
     Inr (None, (2, [(1, Clone sample_record), (3, sample_record)], 7)) \<and>
   leaf_errors sample_env [0, 2] 0 sample_record 0 = [Err 0, Err 2] \<and>
   (\<exists>e s'. Handle sample_env (Handler2 (Leaf 0) (Leaf 2)) 0 sample_record (0, [], 7) = Inr (e, s') \<and>
      (leaf_errors sample_env [0, 2] 0 sample_record 0 = [] \<longrightarrow> e = None) \<and>
      (\<forall>x. leaf_errors sample_env [0, 2] 0 sample_record 0 = [x] \<longrightarrow> e = Some x \<and> errors_Is x x) \<and>
      (2 \<le> length (leaf_errors sample_env [0, 2] 0 sample_record 0) \<longrightarrow>
         e = Some (JoinError 7 (leaf_errors sample_env [0, 2] 0 sample_record 0)) \<and>
         (\<forall>x\<in>set (leaf_errors sample_env [0, 2] 0 sample_record 0).
            errors_Is (JoinError 7 (leaf_errors sample_env [0, 2] 0 sample_record 0)) x))) \<and>
   internal_handlers (HandlersList [Leaf 0, Leaf 1, Leaf 2]) = Some (map Leaf [0, 1, 2]) \<and>
   sound (HandlersList [Leaf 0, Leaf 1, Leaf 2]) \<and>
   Handle sample_env (HandlersList [Leaf 0, Leaf 1, Leaf 2]) 0 sample_record (0, [], 0) =
     Inr (Some (JoinError 0 [Err 0, Err 2]),
          (3, [(0, Clone sample_record), (1, Clone sample_record), (2, sample_record)], 1)) \<and>
   (\<exists>e s'. Handle sample_env (HandlersList [Leaf 0, Leaf 1, Leaf 2]) 0 sample_record (0, [], 0) =
       Inr (e, s'))"
proof -
  have a: "internal_handlers (Handler2 (Leaf 0) (Leaf 2)) = Some (map Leaf [0, 2])" by simp
  have b: "Handler2 (Leaf 0) (Leaf 2) \<noteq> HandlersList []" by simp
  have c: "sound (Handler2 (Leaf 0) (Leaf 2))" by simp
  have r1: "Handle sample_env (Handler2 (Leaf 0) (Leaf 2)) 0 sample_record (0, [], 7) =
     Inr (Some (JoinError 7 [Err 0, Err 2]),
          (2, [(0, Clone sample_record), (2, sample_record)], 8))"
    by code_simp
  have r2: "Handle sample_env (Handler2 (Leaf 0) (Leaf 1)) 0 sample_record (0, [], 7) =
     Inr (Some (Err 0), (2, [(0, Clone sample_record), (1, sample_record)], 7))"
    by code_simp
  have r3: "Handle sample_env (Handler2 (Leaf 1) (Leaf 3)) 0 sample_record (0, [], 7) =
     Inr (None, (2, [(1, Clone sample_record), (3, sample_record)], 7))"
    by code_simp
  have le: "leaf_errors sample_env [0, 2] 0 sample_record 0 = [Err 0, Err 2]" by code_simp
  note p = Handle_error_propagation [OF a, of sample_env 0 sample_record "(0, [], 7)",
      THEN conjunct2, THEN conjunct2, rule_format, OF refl b]
  from p have p': "\<exists>e s'. Handle sample_env (Handler2 (Leaf 0) (Leaf 2)) 0 sample_record (0, [], 7) = Inr (e, s') \<and>
      (leaf_errors sample_env [0, 2] 0 sample_record 0 = [] \<longrightarrow> e = None) \<and>
      (\<forall>x. leaf_errors sample_env [0, 2] 0 sample_record 0 = [x] \<longrightarrow> e = Some x \<and> errors_Is x x) \<and>
      (2 \<le> length (leaf_errors sample_env [0, 2] 0 sample_record 0) \<longrightarrow>
         e = Some (JoinError 7 (leaf_errors sample_env [0, 2] 0 sample_record 0)) \<and>
         (\<forall>x\<in>set (leaf_errors sample_env [0, 2] 0 sample_record 0).
            errors_Is (JoinError 7 (leaf_errors sample_env [0, 2] 0 sample_record 0)) x))"
    by (simp only: fst_conv snd_conv)
  have d: "internal_handlers (HandlersList [Leaf 0, Leaf 1, Leaf 2]) = Some (map Leaf [0, 1, 2])"
    by simp
  have e: "sound (HandlersList [Leaf 0, Leaf 1, Leaf 2])" by simp
  have r4: "Handle sample_env (HandlersList [Leaf 0, Leaf 1, Leaf 2]) 0 sample_record (0, [], 0) =
     Inr (Some (JoinError 0 [Err 0, Err 2]),
          (3, [(0, Clone sample_record), (1, Clone sample_record), (2, sample_record)], 1))"
    by code_simp
  note q = Handle_error_propagation [OF d, of sample_env 0 sample_record "(0, [], 0)",
      THEN conjunct2, THEN conjunct1, rule_format, OF e]
  from a b c r1 r2 r3 le p' d e r4 q show ?thesis by (intro conjI)
qed

text \<open>
  C4. For a \<^verbatim>\<open>Handle\<close> call on a pair or list with children \<open>hs\<close>: if the call
  returns, it has followed the dispatch discipline (each child asked \<^verbatim>\<open>Enabled\<close> at the
  record's level when its turn comes, children that are not enabled passed over), and
  every child served was either a child before the last, served with a clone of the
  record, or the last child, served with the record itself. When the children are the
  foreign handlers \<open>xs\<close> the call returns and the calls they receive are exactly
  \<open>leaf_calls\<close>: a clone to each enabled child before the last, the record to the last
  child if enabled, nothing to a child that is not enabled; when \<^verbatim>\<open>Enabled\<close> does not
  depend on the world, the children called are the enabled ones, in order. A clone is
  independent of the record in that an append to its attribute slice goes to a new array
  and leaves every existing array as it was.
\<close>

theorem Handle_arguments:
  assumes "internal_handlers h = Some hs" and "hs \<noteq> []"
  shows "(\<forall>e s'. Handle E h c r s = Inr (e, s') \<longrightarrow>
       (\<exists>ds s1. dispatch E hs c r s = Inr (ds, s1) \<and>
          fst s' = fst s1 \<and> calls s' = calls s1 \<and>
          (\<forall>d\<in>set ds. (fst d \<in> set (butlast hs) \<and> fst (snd d) = Clone r) \<or>
                     (fst d = last hs \<and> fst (snd d) = r)))) \<and>
     (\<forall>xs. hs = map Leaf xs \<longrightarrow>
        (\<exists>e w' a'. Handle E h c r s =
            Inr (e, (w', calls s @ leaf_calls E xs c r (fst s), a'))) \<and>
        set (leaf_calls E xs c r (fst s)) \<subseteq>
          (\<lambda>x. (x, Clone r)) ` set (butlast xs) \<union> {(last xs, r)} \<and>
        ((\<forall>x w1. l_Enabled E x c (Level r) w1 = l_Enabled E x c (Level r) (fst s)) \<longrightarrow>
           map fst (leaf_calls E xs c r (fst s)) =
             filter (\<lambda>x. l_Enabled E x c (Level r) (fst s)) xs)) \<and>
     (\<forall>g z m ys. ys \<noteq> [] \<longrightarrow>
        arr (fst (sl_append g (z :: attr) m (back_attrs (Clone r)) ys)) = length m \<and>
        take (length m) (snd (sl_append g z m (back_attrs (Clone r)) ys)) = m)"
proof (intro conjI allI impI)
  from assms have ne: "h \<noteq> HandlersList []" by auto
  note eq = Handle_dispatch [OF assms(1) ne, of E c r s]
  {
    fix e s' assume "Handle E h c r s = Inr (e, s')"
    with eq obtain ds s1 where ds: "dispatch E hs c r s = Inr (ds, s1)"
      and rp: "report (causes ds) s1 = (e, s')"
      by (auto split: sum.splits)
    from report_effects [of "causes ds" s1] rp have "fst s' = fst s1" "calls s' = calls s1"
      by simp_all
    with ds dispatch_args [OF ds]
    show "\<exists>ds s1. dispatch E hs c r s = Inr (ds, s1) \<and>
          fst s' = fst s1 \<and> calls s' = calls s1 \<and>
          (\<forall>d\<in>set ds. (fst d \<in> set (butlast hs) \<and> fst (snd d) = Clone r) \<or>
                     (fst d = last hs \<and> fst (snd d) = r))"
      by blast
  next
    fix xs assume xs: "hs = map Leaf xs"
    from report_shape [of "leaf_errors E xs c r (fst s)" "leaf_world E xs c r (fst s)"
        "calls s @ leaf_calls E xs c r (fst s)" "next_join s"] obtain e a' where
      "report (leaf_errors E xs c r (fst s))
         (leaf_world E xs c r (fst s), calls s @ leaf_calls E xs c r (fst s), next_join s) =
       (e, (leaf_world E xs c r (fst s), calls s @ leaf_calls E xs c r (fst s), a'))"
      by blast
    with Handle_leaves [OF assms(1) [unfolded xs] ne, of E c r s]
    have "Handle E h c r s =
        Inr (e, (leaf_world E xs c r (fst s), calls s @ leaf_calls E xs c r (fst s), a'))"
      by simp
    then show "\<exists>e w' a'. Handle E h c r s =
            Inr (e, (w', calls s @ leaf_calls E xs c r (fst s), a'))"
      by blast
    from assms(2) xs have "xs \<noteq> []" by simp
    then show "set (leaf_calls E xs c r (fst s)) \<subseteq>
        (\<lambda>x. (x, Clone r)) ` set (butlast xs) \<union> {(last xs, r)}"
      by (rule leaf_calls_subset)
    assume "\<forall>x w1. l_Enabled E x c (Level r) w1 = l_Enabled E x c (Level r) (fst s)"
    then show "map fst (leaf_calls E xs c r (fst s)) =
        filter (\<lambda>x. l_Enabled E x c (Level r) (fst s)) xs"
      by (rule leaf_calls_filter)
  next
    fix g and z :: attr and m ys assume ys: "ys \<noteq> ([] :: attr list)"
    from Clone_append_fresh [OF ys, of g z m r]
    show "arr (fst (sl_append g z m (back_attrs (Clone r)) ys)) = length m"
      and "take (length m) (snd (sl_append g z m (back_attrs (Clone r)) ys)) = m"
      by simp_all
  }
qed

theorem Handle_arguments_witness:
  "internal_handlers (HandlersList (map Leaf [0, 5, 2])) = Some (map Leaf [0, 5, 2]) \<and>
   map Leaf [0, 5, 2] \<noteq> [] \<and>
   (\<exists>e w' a'. Handle sample_env (HandlersList (map Leaf [0, 5, 2])) 0 sample_record (0, [], 0) =
       Inr (e, (w', [(0, Clone sample_record), (2, sample_record)], a')))"
proof -
  have a: "internal_handlers (HandlersList (map Leaf [0, 5, 2])) = Some (map Leaf [0, 5, 2])"
    by simp
  have b: "map Leaf [0, 5, 2] \<noteq> []" by simp
  have c: "leaf_calls sample_env [0, 5, 2] 0 sample_record 0 =
             [(0, Clone sample_record), (2, sample_record)]"
    by (simp add: sample_env_def sample_record_def Clone_def)
  note t = Handle_arguments [OF a b, of sample_env 0 sample_record "(0, [], 0)"]
  from t [THEN conjunct2, THEN conjunct1, rule_format, of "[0, 5, 2]"]
  have "\<exists>e w' a'. Handle sample_env (HandlersList (map Leaf [0, 5, 2])) 0 sample_record (0, [], 0) =
       Inr (e, (w', [] @ leaf_calls sample_env [0, 5, 2] 0 sample_record 0, a'))"
    by simp
  with a b show ?thesis unfolding c by simp
qed

text \<open>
  C6. For a \<^verbatim>\<open>Handle\<close> call on a composite without a nil child and without an empty
  list inside. The call returns normally, and whatever errors the foreign handlers
  return (\<open>with_errors f\<close>), it returns with the same world and the same log of calls
  received: a failing child keeps no later child from being served. The children served
  and the records they are served with are the same whatever the errors, and the result
  is the propagation policy applied to the errors the served children returned. When
  the children are the foreign handlers \<open>xs\<close> and fail as \<open>g\<close> says (any of them, with
  any error): every call of the dispatch discipline is made, and the result is nil, the
  single error, or the aggregate of the errors of those among the served children that
  fail, in order; when \<^verbatim>\<open>Enabled\<close> does not depend on the world the children served are
  all the enabled ones.
\<close>

theorem Handle_fail_open:
  assumes "sound h"
  shows "(\<exists>e s'. Handle E h c r s = Inr (e, s') \<and>
        (\<forall>f. \<exists>e' s''. Handle (with_errors f E) h c r s = Inr (e', s'') \<and>
                fst s'' = fst s' \<and> calls s'' = calls s')) \<and>
     (\<forall>hs. internal_handlers h = Some hs \<longrightarrow>
        (\<exists>ds s1. dispatch E hs c r s = Inr (ds, s1) \<and>
           (\<forall>f. \<exists>ds' s1'. dispatch (with_errors f E) hs c r s = Inr (ds', s1') \<and>
                   map fst ds' = map fst ds \<and>
                   map (\<lambda>d. fst (snd d)) ds' = map (\<lambda>d. fst (snd d)) ds \<and>
                   Handle (with_errors f E) h c r s = Inr (report (causes ds') s1')))) \<and>
     (\<forall>xs. internal_handlers h = Some (map Leaf xs) \<longrightarrow>
        (\<forall>g. Handle (with_errors (\<lambda>x c r w. g x) E) h c r s =
               Inr (report (List.map_filter g (map fst (leaf_calls E xs c r (fst s))))
                      (leaf_world E xs c r (fst s), calls s @ leaf_calls E xs c r (fst s),
                       next_join s))) \<and>
        ((\<forall>x w1. l_Enabled E x c (Level r) w1 = l_Enabled E x c (Level r) (fst s)) \<longrightarrow>
           map fst (leaf_calls E xs c r (fst s)) =
             filter (\<lambda>x. l_Enabled E x c (Level r) (fst s)) xs))"
proof (intro conjI allI impI)
  from sound_Handle_returns [OF assms, of E c r s] obtain e s' where
    run: "Handle E h c r s = Inr (e, s')" by auto
  have "\<exists>e' s''. Handle (with_errors f E) h c r s = Inr (e', s'') \<and>
                fst s'' = fst s' \<and> calls s'' = calls s'" for f
  proof -
    from Handle_fail_open_states [where s = s and t = s and E = E and c = c and r = r and f = f,
        OF assms refl refl] run
    obtain e' t' where "Handle (with_errors f E) h c r s = Inr (e', t')"
      "fst s' = fst t'" "calls s' = calls t'" by auto
    then show ?thesis by simp
  qed
  with run show "\<exists>e s'. Handle E h c r s = Inr (e, s') \<and>
        (\<forall>f. \<exists>e' s''. Handle (with_errors f E) h c r s = Inr (e', s'') \<and>
                fst s'' = fst s' \<and> calls s'' = calls s')" by blast
next
  fix hs
  assume i: "internal_handlers h = Some hs"
  from sound_children [OF assms i] have ne: "h \<noteq> HandlersList []"
    and kids: "\<forall>k\<in>set hs. sound k" by simp_all
  have kids': "\<forall>k\<in>set hs. sound k \<and>
      (\<forall>c r s t. fst s = fst t \<longrightarrow> calls s = calls t \<longrightarrow>
         (\<exists>e s' e' t'. Handle E k c r s = Inr (e, s') \<and>
            Handle (with_errors f E) k c r t = Inr (e', t') \<and>
            fst s' = fst t' \<and> calls s' = calls t'))" for f
    using kids Handle_fail_open_states by blast
  from dispatch_fail_open [where s = s and t = s and E = E and c = c and r = r and f = undefined,
      OF kids' refl refl] obtain ds s1 where
    d: "dispatch E hs c r s = Inr (ds, s1)" by blast
  have "\<exists>ds' s1'. dispatch (with_errors f E) hs c r s = Inr (ds', s1') \<and>
                   map fst ds' = map fst ds \<and>
                   map (\<lambda>d. fst (snd d)) ds' = map (\<lambda>d. fst (snd d)) ds \<and>
                   Handle (with_errors f E) h c r s = Inr (report (causes ds') s1')" for f
  proof -
    from dispatch_fail_open [where s = s and t = s and E = E and c = c and r = r and f = f,
        OF kids' refl refl] d obtain ds' t' where
      d': "dispatch (with_errors f E) hs c r s = Inr (ds', t')"
      and who: "map fst ds' = map fst ds" "map (\<lambda>d. fst (snd d)) ds' = map (\<lambda>d. fst (snd d)) ds"
      by auto
    have "Handle (with_errors f E) h c r s = Inr (report (causes ds') t')"
      by (simp add: Handle_dispatch [OF i ne] d')
    with d' who show ?thesis by blast
  qed
  with d show "\<exists>ds s1. dispatch E hs c r s = Inr (ds, s1) \<and>
           (\<forall>f. \<exists>ds' s1'. dispatch (with_errors f E) hs c r s = Inr (ds', s1') \<and>
                   map fst ds' = map fst ds \<and>
                   map (\<lambda>d. fst (snd d)) ds' = map (\<lambda>d. fst (snd d)) ds \<and>
                   Handle (with_errors f E) h c r s = Inr (report (causes ds') s1'))"
    by blast
next
  fix xs g
  assume i: "internal_handlers h = Some (map Leaf xs)"
  from sound_children [OF assms i] have ne: "h \<noteq> HandlersList []" by simp
  from Handle_leaves [OF i ne, of "with_errors (\<lambda>x c r w. g x) E" c r s]
  show "Handle (with_errors (\<lambda>x c r w. g x) E) h c r s =
               Inr (report (List.map_filter g (map fst (leaf_calls E xs c r (fst s))))
                      (leaf_world E xs c r (fst s), calls s @ leaf_calls E xs c r (fst s),
                       next_join s))"
    by (simp only: leaf_calls_with_errors leaf_world_with_errors leaf_errors_with_errors)
next
  fix xs
  assume "\<forall>x w1. l_Enabled E x c (Level r) w1 = l_Enabled E x c (Level r) (fst s)"
  then show "map fst (leaf_calls E xs c r (fst s)) =
        filter (\<lambda>x. l_Enabled E x c (Level r) (fst s)) xs"
    by (rule leaf_calls_filter)
qed

theorem Handle_fail_open_witness:
  "sound (HandlersList [Leaf 0, Leaf 1, Leaf 2]) \<and>
   internal_handlers (HandlersList [Leaf 0, Leaf 1, Leaf 2]) = Some (map Leaf [0, 1, 2]) \<and>
   leaf_calls sample_env [0, 1, 2] 0 sample_record 0 =
     [(0, Clone sample_record), (1, Clone sample_record), (2, sample_record)] \<and>
   Handle (with_errors (\<lambda>x c r w. Some (Err (100 + x))) sample_env)
       (HandlersList [Leaf 0, Leaf 1, Leaf 2]) 0 sample_record (0, [], 0) =
     Inr (Some (JoinError 0 [Err 100, Err 101, Err 102]),
          (3, [(0, Clone sample_record), (1, Clone sample_record), (2, sample_record)], 1)) \<and>
   Handle (with_errors (\<lambda>x c r w. if x = 0 then Some (Err 100) else None) sample_env)
       (HandlersList [Leaf 0, Leaf 1, Leaf 2]) 0 sample_record (0, [], 0) =
     Inr (Some (Err 100),
          (3, [(0, Clone sample_record), (1, Clone sample_record), (2, sample_record)], 0)) \<and>
   sound (Handler2 (Leaf 0) (Leaf 1)) \<and>
   internal_handlers (Handler2 (Leaf 0) (Leaf 1)) = Some (map Leaf [0, 1]) \<and>
   Handle (with_errors (\<lambda>x c r w. if x = 0 then Some (Err 100) else None) sample_env)
       (Handler2 (Leaf 0) (Leaf 1)) 0 sample_record (0, [], 0) =
     Inr (Some (Err 100), (2, [(0, Clone sample_record), (1, sample_record)], 0)) \<and>
   (\<exists>e s'. Handle sample_env (HandlersList [Leaf 0, Leaf 1, Leaf 2]) 0 sample_record (0, [], 0) =
        Inr (e, s') \<and>
      (\<forall>f. \<exists>e' s''. Handle (with_errors f sample_env) (HandlersList [Leaf 0, Leaf 1, Leaf 2]) 0
                    sample_record (0, [], 0) = Inr (e', s'') \<and>
              fst s'' = fst s' \<and> calls s'' = calls s'))"
proof -
  have a: "sound (HandlersList [Leaf 0, Leaf 1, Leaf 2])" by simp
  have b: "internal_handlers (HandlersList [Leaf 0, Leaf 1, Leaf 2]) = Some (map Leaf [0, 1, 2])"
    by simp
  have c: "leaf_calls sample_env [0, 1, 2] 0 sample_record 0 =
     [(0, Clone sample_record), (1, Clone sample_record), (2, sample_record)]"
    by code_simp
  note t = Handle_fail_open [OF a, of sample_env 0 sample_record "(0, [], 0)"]
  note t3 = t [THEN conjunct2, THEN conjunct2, rule_format, OF b, THEN conjunct1, rule_format]
  have v1: "report (List.map_filter (\<lambda>x. Some (Err (100 + x)))
                (map fst (leaf_calls sample_env [0, 1, 2] 0 sample_record (fst (0 :: nat, [] :: (leaf \<times> Record) list, 0 :: nat)))))
              (leaf_world sample_env [0, 1, 2] 0 sample_record (fst (0 :: nat, [] :: (leaf \<times> Record) list, 0 :: nat)),
               calls (0 :: nat, [], 0 :: nat) @ leaf_calls sample_env [0, 1, 2] 0 sample_record (fst (0 :: nat, [] :: (leaf \<times> Record) list, 0 :: nat)),
               next_join (0 :: nat, [] :: (leaf \<times> Record) list, 0 :: nat)) =
       (Some (JoinError 0 [Err 100, Err 101, Err 102]),
          (3, [(0, Clone sample_record), (1, Clone sample_record), (2, sample_record)], 1))"
    by code_simp
  have v2: "report (List.map_filter (\<lambda>x. if x = 0 then Some (Err 100) else None)
                (map fst (leaf_calls sample_env [0, 1, 2] 0 sample_record (fst (0 :: nat, [] :: (leaf \<times> Record) list, 0 :: nat)))))
              (leaf_world sample_env [0, 1, 2] 0 sample_record (fst (0 :: nat, [] :: (leaf \<times> Record) list, 0 :: nat)),
               calls (0 :: nat, [], 0 :: nat) @ leaf_calls sample_env [0, 1, 2] 0 sample_record (fst (0 :: nat, [] :: (leaf \<times> Record) list, 0 :: nat)),
               next_join (0 :: nat, [] :: (leaf \<times> Record) list, 0 :: nat)) =
       (Some (Err 100),
          (3, [(0, Clone sample_record), (1, Clone sample_record), (2, sample_record)], 0))"
    by code_simp
  from t3 [of "\<lambda>x. Some (Err (100 + x))"] have r1:
    "Handle (with_errors (\<lambda>x c r w. Some (Err (100 + x))) sample_env)
       (HandlersList [Leaf 0, Leaf 1, Leaf 2]) 0 sample_record (0, [], 0) =
     Inr (Some (JoinError 0 [Err 100, Err 101, Err 102]),
          (3, [(0, Clone sample_record), (1, Clone sample_record), (2, sample_record)], 1))"
    unfolding v1 .
  from t3 [of "\<lambda>x. if x = 0 then Some (Err 100) else None"] have r2:
    "Handle (with_errors (\<lambda>x c r w. if x = 0 then Some (Err 100) else None) sample_env)
       (HandlersList [Leaf 0, Leaf 1, Leaf 2]) 0 sample_record (0, [], 0) =
     Inr (Some (Err 100),
          (3, [(0, Clone sample_record), (1, Clone sample_record), (2, sample_record)], 0))"
    unfolding v2 .
  have a2: "sound (Handler2 (Leaf 0) (Leaf 1))" by simp
  have b2: "internal_handlers (Handler2 (Leaf 0) (Leaf 1)) = Some (map Leaf [0, 1])" by simp
  note u3 = Handle_fail_open [OF a2, of sample_env 0 sample_record "(0, [], 0)",
      THEN conjunct2, THEN conjunct2, rule_format, OF b2, THEN conjunct1, rule_format]
  have v3: "report (List.map_filter (\<lambda>x. if x = 0 then Some (Err 100) else None)
                (map fst (leaf_calls sample_env [0, 1] 0 sample_record (fst (0 :: nat, [] :: (leaf \<times> Record) list, 0 :: nat)))))
              (leaf_world sample_env [0, 1] 0 sample_record (fst (0 :: nat, [] :: (leaf \<times> Record) list, 0 :: nat)),
               calls (0 :: nat, [], 0 :: nat) @ leaf_calls sample_env [0, 1] 0 sample_record (fst (0 :: nat, [] :: (leaf \<times> Record) list, 0 :: nat)),
               next_join (0 :: nat, [] :: (leaf \<times> Record) list, 0 :: nat)) =
       (Some (Err 100), (2, [(0, Clone sample_record), (1, sample_record)], 0))"
    by code_simp
  from u3 [of "\<lambda>x. if x = 0 then Some (Err 100) else None"] have r3:
    "Handle (with_errors (\<lambda>x c r w. if x = 0 then Some (Err 100) else None) sample_env)
       (Handler2 (Leaf 0) (Leaf 1)) 0 sample_record (0, [], 0) =
     Inr (Some (Err 100), (2, [(0, Clone sample_record), (1, sample_record)], 0))"
    unfolding v3 .
  from a b c r1 r2 a2 b2 r3 t [THEN conjunct1] show ?thesis by (intro conjI)
qed

text \<open>
  Two aggregates made separately are different errors even when they hold the same
  causes: a pair of two pairs over the same failing handlers returns an aggregate of two
  aggregates with different addresses, and \<^verbatim>\<open>errors.Is\<close> of one against the other fails.
\<close>

lemma separate_aggregates_differ:
  "Handle sample_env (Handler2 (Handler2 (Leaf 0) (Leaf 2)) (Handler2 (Leaf 0) (Leaf 2))) 0
       sample_record (0, [], 0) =
     Inr (Some (JoinError 2 [JoinError 0 [Err 0, Err 2], JoinError 1 [Err 0, Err 2]]),
          (4, [(0, Clone (Clone sample_record)), (2, Clone sample_record),
               (0, Clone sample_record), (2, sample_record)], 3)) \<and>
   \<not> errors_Is (JoinError 0 [Err 0, Err 2]) (JoinError 1 [Err 0, Err 2]) \<and>
   errors_Is (JoinError 2 [JoinError 0 [Err 0, Err 2], JoinError 1 [Err 0, Err 2]])
     (JoinError 1 [Err 0, Err 2])"
  by code_simp

section \<open>The factory\<close>

lemma sl_append_flat:
  assumes inv: "flat_inv n0 m flat" and n0: "n0 \<le> length m"
    and app: "sl_append g NilHandler m flat ys = (flat', m')"
  shows "flat_inv n0 m' flat' \<and> sl_read m' flat' = sl_read m flat @ ys \<and>
         take n0 m' = take n0 m \<and> length m \<le> length m'"
proof (cases "len flat + length ys \<le> cap flat")
  case True
  show ?thesis
  proof (cases "ys = []")
    case True
    with \<open>len flat + length ys \<le> cap flat\<close> app inv show ?thesis
      by (auto simp: sl_append_def)
  next
    case False
    with True inv have fl: "n0 \<le> arr flat" "arr flat < length m" "off flat = 0"
      "cap flat = length (m ! arr flat)"
      by (auto simp: flat_inv_def)
    define xs where "xs = m ! arr flat"
    define xs' where "xs' = write_at xs (len flat) ys"
    from app True False fl have f': "flat' = flat\<lparr>len := len flat + length ys\<rparr>"
      and m': "m' = m[arr flat := xs']"
      by (auto simp: sl_append_def xs'_def xs_def)
    from True fl have le: "len flat + length ys \<le> length xs" by (simp add: xs_def)
    then have lx: "length xs' = length xs" by (simp add: xs'_def write_at_def)
    from le have rd: "take (len flat + length ys) xs' = take (len flat) xs @ ys"
      by (simp add: xs'_def write_at_def)
    from fl lx True have "flat_inv n0 m' flat'"
      by (simp add: flat_inv_def f' m' xs_def)
    moreover from fl rd have "sl_read m' flat' = sl_read m flat @ ys"
      by (simp add: sl_read_def f' m' xs_def)
    moreover from fl have "take n0 m' = take n0 m" by (simp add: m')
    moreover have "length m \<le> length m'" by (simp add: m')
    ultimately show ?thesis by blast
  qed
next
  case False
  define n where "n = len flat + length ys"
  define c where "c = max n (g (cap flat) n)"
  from app False have f': "flat' = \<lparr>arr = length m, off = 0, len = n, cap = c\<rparr>"
    and m': "m' = m @ [sl_read m flat @ ys @ replicate (c - n) NilHandler]"
    by (auto simp: sl_append_def Let_def n_def c_def)
  from inv have lr: "length (sl_read m flat) = len flat"
    by (auto simp: flat_inv_def sl_read_def)
  have cn: "n \<le> c" by (simp add: c_def)
  from lr cn n0 have "flat_inv n0 m' flat'"
    by (simp add: flat_inv_def f' m' n_def)
  moreover from lr have "sl_read m' flat' = sl_read m flat @ ys"
    by (simp add: f' m' n_def sl_read_def [of "m @ _"])
  moreover from n0 have "take n0 m' = take n0 m" by (simp add: m')
  moreover have "length m \<le> length m'" by (simp add: m')
  ultimately show ?thesis by blast
qed

lemma expand_cases:
  "expand h = (if h = NilHandler then [] else case internal_handlers h of Some cs \<Rightarrow> cs | None \<Rightarrow> [h])"
  by (simp add: expand_def)

lemma Handlers_range_flatten:
  assumes "flat_inv (length m0) m flat" and "take (length m0) m = m0"
    and "arr hs < length m0" and "off hs + len hs \<le> length (m0 ! arr hs)"
    and "\<forall>i\<in>set is. i < len hs"
    and "Handlers_range g hs is flat m = (flat', m')"
  shows "flat_inv (length m0) m' flat' \<and> take (length m0) m' = m0 \<and>
         sl_read m' flat' = sl_read m flat @ concat (map (\<lambda>i. expand (sl_read m0 hs ! i)) is)"
  using assms(1,2,5,6)
proof (induction "is" arbitrary: flat m)
  case Nil
  then show ?case by simp
next
  case (Cons i "is")
  from Cons.prems(2) have "length (take (length m0) m) = length m0" by simp
  then have lm: "length m0 \<le> length m" by simp
  from Cons.prems(3) have i: "i < len hs" by simp
  from assms(3) have "take (length m0) m ! arr hs = m ! arr hs" by simp
  with Cons.prems(2) have "m ! arr hs = m0 ! arr hs" by simp
  moreover from i assms(4) have "sl_read m0 hs ! i = (m0 ! arr hs) ! (off hs + i)"
    by (simp add: sl_read_def)
  ultimately have rd: "(m ! arr hs) ! (off hs + i) = sl_read m0 hs ! i" by simp
  define h where "h = sl_read m0 hs ! i"
  define ys where "ys = expand h"
  obtain flat1 m1 where ap: "sl_append g NilHandler m flat ys = (flat1, m1)"
    by (cases "sl_append g NilHandler m flat ys")
  from sl_append_flat [OF Cons.prems(1) lm ap] Cons.prems(2)
  have inv1: "flat_inv (length m0) m1 flat1" and rd1: "sl_read m1 flat1 = sl_read m flat @ ys"
    and tk1: "take (length m0) m1 = m0" by simp_all
  have ys_nil: "ys = [] \<Longrightarrow> flat1 = flat \<and> m1 = m"
    using ap Cons.prems(1) by (auto simp: sl_append_def Let_def flat_inv_def)
  have step: "Handlers_range g hs (i # is) flat m = Handlers_range g hs is flat1 m1"
  proof (cases "h = NilHandler")
    case True
    then have "ys = []" by (simp add: ys_def expand_def)
    with ys_nil True rd show ?thesis by (simp add: h_def)
  next
    case False
    with rd ap show ?thesis
      by (cases "internal_handlers h") (simp_all add: h_def [symmetric] ys_def expand_def)
  qed
  from Cons.prems(3) have "\<forall>i\<in>set is. i < len hs" by simp
  from Cons.IH [OF inv1 tk1 this] Cons.prems(4) step
  have "flat_inv (length m0) m' flat' \<and> take (length m0) m' = m0 \<and>
         sl_read m' flat' = sl_read m1 flat1 @ concat (map (\<lambda>i. expand (sl_read m0 hs ! i)) is)"
    by simp
  with rd1 show ?case by (simp add: ys_def h_def)
qed

lemma flat_inv_length: "flat_inv n0 m flat \<Longrightarrow> length (sl_read m flat) = len flat"
  by (auto simp: flat_inv_def sl_read_def)

lemma Handlers_range_all:
  assumes "sl_valid m hs"
    and "Handlers_range g hs [0..<len hs] nil_slice m = (flat, m1)"
  shows "flat_inv (length m) m1 flat \<and> take (length m) m1 = m \<and>
         sl_read m1 flat = flatten (sl_read m hs) \<and> len flat = length (flatten (sl_read m hs))"
proof -
  from assms(1) have v: "arr hs < length m" "off hs + len hs \<le> length (m ! arr hs)"
    by (simp_all add: sl_valid_def)
  have n: "flat_inv (length m) m nil_slice" by (simp add: flat_inv_def nil_slice_def)
  have t: "take (length m) m = m" by simp
  have b: "\<forall>i\<in>set [0..<len hs]. i < len hs" by simp
  note c = Handlers_range_flatten [OF n t v b assms(2)]
  from c have inv: "flat_inv (length m) m1 flat" by (rule conjunct1)
  from c have tk: "take (length m) m1 = m" by (rule conjunct2 [THEN conjunct1])
  from c have rd: "sl_read m1 flat =
       sl_read m nil_slice @ concat (map (\<lambda>i. expand (sl_read m hs ! i)) [0..<len hs])"
    by (rule conjunct2 [THEN conjunct2])
  from v have l: "length (sl_read m hs) = len hs" by (simp add: sl_read_def)
  have "map (\<lambda>i. expand (sl_read m hs ! i)) [0..<length (sl_read m hs)] = map expand (sl_read m hs)"
    by (rule nth_equalityI) simp_all
  then have "concat (map (\<lambda>i. expand (sl_read m hs ! i)) [0..<len hs]) = flatten (sl_read m hs)"
    unfolding l flatten_def by (rule arg_cong)
  moreover have "sl_read m nil_slice = []" by (simp add: sl_read_def nil_slice_def)
  ultimately have rd': "sl_read m1 flat = flatten (sl_read m hs)"
    using rd by (simp only: append_Nil)
  from flat_inv_length [OF inv] have "len flat = length (sl_read m1 flat)" by simp
  with rd' inv tk show ?thesis by (simp only: simp_thms)
qed

lemma Handlers_made:
  assumes "sl_valid m hs" and "Handlers g hs m = (r, m')"
  shows "take (length m) m' = m \<and>
     (length (flatten (sl_read m hs)) \<le> 2 \<longrightarrow> r = Direct (represent (flatten (sl_read m hs)))) \<and>
     (3 \<le> length (flatten (sl_read m hs)) \<longrightarrow>
        (\<exists>t. r = Stored t \<and> sl_read m' t = flatten (sl_read m hs) \<and>
           len t = length (flatten (sl_read m hs)) \<and> cap t = len t \<and> off t = 0 \<and>
           length m \<le> arr t \<and> arr t < length m' \<and> length (m' ! arr t) = len t))"
proof -
  define fl where "fl = flatten (sl_read m hs)"
  obtain flat m1 where run: "Handlers_range g hs [0..<len hs] nil_slice m = (flat, m1)"
    by (cases "Handlers_range g hs [0..<len hs] nil_slice m")
  from Handlers_range_all [OF assms(1) run]
  have inv: "flat_inv (length m) m1 flat" and tk: "take (length m) m1 = m"
    and rd: "sl_read m1 flat = fl" and ln: "len flat = length fl"
    by (simp_all add: fl_def)
  from tk have "length (take (length m) m1) = length m" by simp
  then have lm: "length m \<le> length m1" by simp
  have "fl = [] \<or> (\<exists>h. fl = [h]) \<or> (\<exists>h0 h1. fl = [h0, h1]) \<or> 3 \<le> length fl"
  proof (cases fl)
    case (Cons a as)
    then show ?thesis
    proof (cases as)
      case (Cons b bs)
      with \<open>fl = a # as\<close> show ?thesis by (cases bs) simp_all
    qed simp
  qed simp
  then consider "fl = []" | h where "fl = [h]" | h0 h1 where "fl = [h0, h1]" | "3 \<le> length fl"
    by blast
  then show ?thesis
  proof cases
    case 1
    with assms(2) run ln tk show ?thesis
      by (simp add: Handlers_def represent_def fl_def [symmetric])
  next
    case 2
    with assms(2) run ln rd tk show ?thesis
      by (auto simp: Handlers_def represent_def fl_def [symmetric])
  next
    case 3
    with assms(2) run ln rd tk show ?thesis
      by (auto simp: Handlers_def represent_def fl_def [symmetric])
  next
    case 4
    with ln inv have fi: "length m \<le> arr flat" "arr flat < length m1" "off flat = 0"
      "cap flat = length (m1 ! arr flat)"
      by (auto simp: flat_inv_def)
    show ?thesis
    proof (cases "cap flat = len flat")
      case True
      from 4 ln have "len flat \<noteq> 0" "len flat \<noteq> 1" "len flat \<noteq> 2" by auto
      with True assms(2) run have "r = Stored flat" "m' = m1"
        by (simp_all add: Handlers_def)
      with 4 True fi rd ln tk show ?thesis
        by (simp add: fl_def [symmetric])
    next
      case False
      define trim where "trim = \<lparr>arr = length m1, off = 0, len = len flat, cap = len flat\<rparr>"
      define m2 where "m2 = m1 @ [replicate (len flat) NilHandler]"
      from 4 ln have "len flat \<noteq> 0" "len flat \<noteq> 1" "len flat \<noteq> 2" by auto
      with False assms(2) run have r: "r = Stored trim" and m': "m' = sl_copy m2 trim flat"
        by (simp_all add: Handlers_def sl_make_def trim_def m2_def)
      from fi have "sl_read m2 flat = fl"
        by (simp add: sl_read_def m2_def nth_append rd [symmetric])
      with 4 ln have "m' = m2[length m1 := write_at (replicate (len flat) NilHandler) 0 fl]"
        by (auto simp: m' sl_copy_def trim_def Let_def m2_def)
      with ln have m'': "m' = m1 @ [fl]"
        by (simp add: m2_def write_at_def)
      have "sl_read m' trim = fl"
        by (simp add: m'' trim_def sl_read_def ln)
      moreover from tk lm have "take (length m) m' = m" by (simp add: m'')
      moreover have "length (m' ! arr trim) = len trim" "arr trim < length m'"
        by (simp_all add: m'' trim_def ln)
      moreover from lm have "length m \<le> arr trim" "off trim = 0" "cap trim = len trim"
        "len trim = length fl"
        by (simp_all add: trim_def ln)
      ultimately show ?thesis using r 4
        by (simp add: fl_def [symmetric])
    qed
  qed
qed


lemma sample_valid: "sl_valid sample_args sample_hs"
  by (simp add: sl_valid_def sample_args_def sample_hs_def)

lemma sample_run: "Handlers doubling sample_hs sample_args = sample_made"
  unfolding sample_made_def by code_simp




lemma handler_of_made:
  assumes "sl_valid m hs" and "Handlers g hs m = (r, m')"
  shows "handler_of m' r = represent (flatten (sl_read m hs))"
proof (cases "length (flatten (sl_read m hs)) \<le> 2")
  case True
  with Handlers_made [OF assms] show ?thesis by simp
next
  case False
  then have big: "3 \<le> length (flatten (sl_read m hs))" by simp
  with Handlers_made [OF assms] obtain t where "r = Stored t"
    "sl_read m' t = flatten (sl_read m hs)" by blast
  moreover from big have "represent (flatten (sl_read m hs)) = HandlersList (flatten (sl_read m hs))"
    by (auto simp: represent_def split: list.splits)
  ultimately show ?thesis by simp
qed

lemma Handlers_input_untouched:
  assumes "sl_valid m hs" and "Handlers g hs m = (r, m')"
  shows "arr hs < length m' \<and> m' ! arr hs = m ! arr hs \<and>
         handler_of (m'[arr hs := xs]) r = handler_of m' r"
proof -
  note made = Handlers_made [OF assms]
  from assms(1) have a: "arr hs < length m" by (simp add: sl_valid_def)
  from made have tk: "take (length m) m' = m" by simp
  then have "length (take (length m) m') = length m" by simp
  then have lm: "length m \<le> length m'" by simp
  from a have "take (length m) m' ! arr hs = m' ! arr hs" by simp
  with tk have same: "m' ! arr hs = m ! arr hs" by simp
  have "handler_of (m'[arr hs := xs]) r = handler_of m' r"
  proof (cases r)
    case (Direct h)
    then show ?thesis by simp
  next
    case (Stored t)
    with made have "3 \<le> length (flatten (sl_read m hs))"
      by (cases "length (flatten (sl_read m hs)) \<le> 2") auto
    with made Stored have "length m \<le> arr t" by auto
    with a have "arr t \<noteq> arr hs" by simp
    with Stored show ?thesis by (simp add: sl_read_def)
  qed
  with a lm same show ?thesis by simp
qed

text \<open>
  C9. For an argument slice \<open>hs\<close> that fits the memory, the factory leaves the caller's
  array as it was, and whatever the caller stores in that array afterwards (any new
  contents \<open>xs\<close> of the array, so also entries overwritten or appended within its
  capacity), the handler returned is the same handler: its \<^verbatim>\<open>Enabled\<close>, \<^verbatim>\<open>Handle\<close>,
  \<^verbatim>\<open>WithAttrs\<close> and \<^verbatim>\<open>WithGroup\<close> give the same results as without the change.
\<close>

theorem Handlers_input_isolation:
  assumes "sl_valid m hs" and "Handlers g hs m = (r, m')"
  shows "arr hs < length m' \<and> m' ! arr hs = m ! arr hs \<and>
     (\<forall>xs. handler_of (m'[arr hs := xs]) r = handler_of m' r \<and>
        (\<forall>E c l w. Enabled E (handler_of (m'[arr hs := xs]) r) c l (w :: 'w) =
                    Enabled E (handler_of m' r) c l w) \<and>
        (\<forall>E c rec s. Handle E (handler_of (m'[arr hs := xs]) r) c rec (s :: 'w hstate) =
                      Handle E (handler_of m' r) c rec s) \<and>
        (\<forall>E a s. WithAttrs (E :: 'w env) (handler_of (m'[arr hs := xs]) r) a s =
                  WithAttrs E (handler_of m' r) a s) \<and>
        (\<forall>E n. WithGroup (E :: 'w env) (handler_of (m'[arr hs := xs]) r) n =
                WithGroup E (handler_of m' r) n))"
  using Handlers_input_untouched [OF assms] by simp

theorem Handlers_input_isolation_witness:
  "sl_valid sample_args sample_hs \<and>
   Handlers doubling sample_hs sample_args = sample_made \<and>
   handler_of (snd sample_made) (fst sample_made) = HandlersList [Leaf 0, Leaf 1, Leaf 2, Leaf 3] \<and>
   handler_of ((snd sample_made)[arr sample_hs := [NilHandler, NilHandler, NilHandler, NilHandler]])
     (fst sample_made) = HandlersList [Leaf 0, Leaf 1, Leaf 2, Leaf 3]"
proof -
  have run: "Handlers doubling sample_hs sample_args = (fst sample_made, snd sample_made)"
    by (simp add: sample_run)
  have now: "handler_of (snd sample_made) (fst sample_made) =
               HandlersList [Leaf 0, Leaf 1, Leaf 2, Leaf 3]"
    by (simp add: sample_made_def sl_read_def)
  from Handlers_input_isolation [OF sample_valid run]
  have "handler_of ((snd sample_made)[arr sample_hs := [NilHandler, NilHandler, NilHandler, NilHandler]])
     (fst sample_made) = handler_of (snd sample_made) (fst sample_made)"
    by blast
  with sample_valid sample_run now show ?thesis by simp
qed

lemma Handlers_value_represent: "Handlers_value g xs m = represent (flatten xs)"
proof -
  define hs where "hs = \<lparr>arr = length m, off = 0, len = length xs, cap = length xs\<rparr>"
  obtain r m' where run: "Handlers g hs (m @ [xs]) = (r, m')"
    by (cases "Handlers g hs (m @ [xs])")
  have v: "sl_valid (m @ [xs]) hs" by (simp add: sl_valid_def hs_def)
  have "sl_read (m @ [xs]) hs = xs" by (simp add: sl_read_def hs_def)
  with handler_of_made [OF v run] run show ?thesis
    by (simp add: Handlers_value_def Handlers_of_def hs_def [symmetric])
qed

section \<open>What can be obtained through the public interface\<close>

lemma handlers_WithAttrs_length:
  "handlers_WithAttrs E hs a s = Inr (hs', s') \<Longrightarrow> length hs' = length hs"
proof (induction hs arbitrary: a s hs' s')
  case Nil
  then show ?case by simp
next
  case (Cons h hs)
  show ?case
  proof (cases hs)
    case Nil
    with Cons.prems show ?thesis by (auto split: sum.splits)
  next
    case (Cons k ks)
    with Cons.prems Cons.IH show ?thesis
      by (auto split: sum.splits prod.splits)
  qed
qed

lemma handlers_WithGroup_length:
  "handlers_WithGroup E hs n = Inr hs' \<Longrightarrow> length hs' = length hs"
  by (induction hs arbitrary: hs') (auto split: sum.splits)

lemma expand_length_le:
  "y \<in> set ys \<Longrightarrow> length (expand y) \<le> length (flatten ys)"
  by (induction ys) (auto simp: flatten_def)

lemma flatten_member:
  "k \<in> set (flatten ys) \<Longrightarrow> \<exists>y\<in>set ys. k \<in> set (expand y)"
  by (auto simp: flatten_def)

lemma single_is_argument:
  assumes "flatten ys = [k]" and "\<forall>y\<in>set ys. \<forall>z. y \<noteq> HandlersList [z]"
  shows "k \<noteq> NilHandler \<and> internal_handlers k = None"
proof -
  from assms(1) have "k \<in> set (flatten ys)" by simp
  from flatten_member [OF this] obtain y where y: "y \<in> set ys" "k \<in> set (expand y)" by blast
  from expand_length_le [OF y(1)] assms(1) have le: "length (expand y) \<le> 1" by simp
  from y(2) have "expand y \<noteq> []" by auto
  with le y(2) have ex: "expand y = [k]"
    by (cases "expand y") auto
  show ?thesis
  proof (cases "internal_handlers y")
    case None
    with ex show ?thesis by (auto simp: expand_def split: if_splits)
  next
    case (Some cs)
    with ex have "y = HandlersList [k]"
      by (cases y) (auto simp: expand_def split: if_splits)
    with assms(2) y(1) show ?thesis by blast
  qed
qed

lemma represent_list:
  "represent fl = HandlersList hs \<Longrightarrow> (fl = [HandlersList hs]) \<or> (fl = hs \<and> 3 \<le> length hs)"
  by (auto simp: represent_def split: list.splits)

lemma reachable_list_length:
  "reachable E h \<Longrightarrow> h = HandlersList ks \<Longrightarrow> 3 \<le> length ks"
proof (induction arbitrary: ks rule: reachable.induct)
  case (made m hs g r m')
  from handler_of_made [OF made.hyps(1,2)] made.prems
  have rep: "represent (flatten (sl_read m hs)) = HandlersList ks" by simp
  from represent_list [OF rep] show ?case
  proof
    assume single: "flatten (sl_read m hs) = [HandlersList ks]"
    from made.IH have "\<forall>y\<in>set (sl_read m hs). \<forall>z. y \<noteq> HandlersList [z]"
      by fastforce
    from single_is_argument [OF single this] show ?thesis by simp
  next
    assume "flatten (sl_read m hs) = ks \<and> 3 \<le> length ks"
    then show ?thesis by simp
  qed
next
  case (decorated h a s h' s')
  from decorated.hyps(3) decorated.prems obtain hs where h: "h = HandlersList hs"
    and run: "handlers_WithAttrs E hs a s = Inr (ks, s')"
    using decorated.hyps(2)
    by (cases h) (auto split: sum.splits prod.splits)
  from handlers_WithAttrs_length [OF run] decorated.IH [OF h] show ?case by simp
next
  case (grouped h n h')
  from grouped.hyps(3) grouped.prems obtain hs where h: "h = HandlersList hs"
    and run: "handlers_WithGroup E hs n = Inr ks"
    using grouped.hyps(2)
    by (cases h) (auto split: sum.splits prod.splits)
  from handlers_WithGroup_length [OF run] grouped.IH [OF h] show ?case by simp
qed

lemma split_attrs_returns: "\<exists>a attrs' m'. split_attrs attrs m = Inr (a, attrs', m')"
  by (simp add: split_attrs_def reslice2_def reslice3_def Let_def sl_make_def)

lemma handlers_WithAttrs_leaves_return:
  "xs \<noteq> [] \<Longrightarrow> \<exists>res. handlers_WithAttrs E (map Leaf xs) a s = Inr res"
proof (induction xs arbitrary: a s)
  case Nil
  then show ?case by simp
next
  case (Cons x xs)
  show ?case
  proof (cases xs)
    case Nil
    then show ?thesis by simp
  next
    case (Cons y ys)
    obtain b a' m' where sp: "split_attrs a (fst s) = Inr (b, a', m')"
      using split_attrs_returns by blast
    from Cons have "xs \<noteq> []" by simp
    from Cons.IH [OF this, of a' "(m', snd s @ [(x, b)])"] obtain res where
      "handlers_WithAttrs E (map Leaf xs) a' (m', snd s @ [(x, b)]) = Inr res" ..
    with sp Cons show ?thesis by (cases res) simp
  qed
qed

lemma Handle_leaves_return:
  assumes "xs \<noteq> []"
  shows "\<exists>res. Handle E (HandlersList (map Leaf xs)) c r s = Inr res"
proof -
  have "internal_handlers (HandlersList (map Leaf xs)) = Some (map Leaf xs)" by simp
  moreover from assms have "HandlersList (map Leaf xs) \<noteq> HandlersList []" by simp
  ultimately have "Handle E (HandlersList (map Leaf xs)) c r s =
     Inr (report (leaf_errors E xs c r (fst s))
            (leaf_world E xs c r (fst s), calls s @ leaf_calls E xs c r (fst s), next_join s))"
    by (rule Handle_leaves)
  then show ?thesis by blast
qed

text \<open>
  C10. Every \<^verbatim>\<open>handlers\<close> slice that can be obtained through the public interface (made
  by the factory from arguments that are nil, foreign or obtained before, or returned by
  \<^verbatim>\<open>WithAttrs\<close> or \<^verbatim>\<open>WithGroup\<close> of a composite so obtained) has at least three
  children. So it is not empty and the index \<^verbatim>\<open>len(hs)-1\<close> is within its length; when
  its children are foreign handlers, \<^verbatim>\<open>Handle\<close> and \<^verbatim>\<open>WithAttrs\<close> return without a
  panic.
\<close>

theorem reachable_list_in_bounds:
  assumes "reachable E (HandlersList hs)"
  shows "3 \<le> length hs \<and> hs \<noteq> [] \<and> length hs - 1 < length hs \<and>
     (\<forall>xs. hs = map Leaf xs \<longrightarrow>
        (\<forall>c r s. \<exists>res. Handle E (HandlersList hs) c r s = Inr res) \<and>
        (\<forall>a s. \<exists>res. WithAttrs E (HandlersList hs) a s = Inr res))"
proof -
  from reachable_list_length [OF assms refl] have three: "3 \<le> length hs" .
  then have ne: "hs \<noteq> []" by auto
  have "(\<forall>c r s. \<exists>res. Handle E (HandlersList hs) c r s = Inr res) \<and>
        (\<forall>a s. \<exists>res. WithAttrs E (HandlersList hs) a s = Inr res)" if "hs = map Leaf xs" for xs
  proof -
    from ne that have xs: "xs \<noteq> []" by simp
    have "\<exists>res. WithAttrs E (HandlersList hs) a s = Inr res" for a s
    proof -
      from handlers_WithAttrs_leaves_return [OF xs, of E a s] obtain res where
        "handlers_WithAttrs E (map Leaf xs) a s = Inr res" ..
      then show ?thesis unfolding that by (cases res) simp
    qed
    with Handle_leaves_return [OF xs, of E] show ?thesis unfolding that by blast
  qed
  with three ne show ?thesis by simp
qed


lemma three_run:
  "Handlers tight three_hs three_args =
     (Stored \<lparr>arr = 3, off = 0, len = 3, cap = 3\<rparr>,
      [[Leaf 0, Leaf 1, Leaf 2], [Leaf 0], [Leaf 0, Leaf 1], [Leaf 0, Leaf 1, Leaf 2]])"
  by code_simp

lemma three_reachable: "reachable E (HandlersList [Leaf 0, Leaf 1, Leaf 2])"
proof -
  have v: "sl_valid three_args three_hs" by (simp add: sl_valid_def three_args_def three_hs_def)
  have a: "\<forall>x\<in>set (sl_read three_args three_hs). internal_handlers x = None \<or> reachable E x"
    by (simp add: sl_read_def three_args_def three_hs_def)
  from reachable.made [OF v a three_run] show ?thesis by (simp add: sl_read_def)
qed

theorem reachable_list_in_bounds_witness:
  "reachable sample_env (HandlersList [Leaf 0, Leaf 1, Leaf 2]) \<and>
   3 \<le> length [Leaf 0, Leaf 1, Leaf 2 :: handler] \<and>
   (\<exists>res. Handle sample_env (HandlersList [Leaf 0, Leaf 1, Leaf 2]) 0 sample_record (0, [], 0) =
      Inr res)"
proof -
  have r: "reachable sample_env (HandlersList [Leaf 0, Leaf 1, Leaf 2])" by (rule three_reachable)
  have m: "[Leaf 0, Leaf 1, Leaf 2] = map Leaf [0, 1, 2]" by simp
  note t = reachable_list_in_bounds [OF r]
  from t have three: "3 \<le> length [Leaf 0, Leaf 1, Leaf 2 :: handler]" by (rule conjunct1)
  from t have "\<forall>xs. [Leaf 0, Leaf 1, Leaf 2] = map Leaf xs \<longrightarrow>
        (\<forall>c r s. \<exists>res. Handle sample_env (HandlersList [Leaf 0, Leaf 1, Leaf 2]) c r s = Inr res) \<and>
        (\<forall>a s. \<exists>res. WithAttrs sample_env (HandlersList [Leaf 0, Leaf 1, Leaf 2]) a s = Inr res)"
    by (elim conjE)
  from this [rule_format, of "[0, 1, 2]"]
  have "\<forall>c r s. \<exists>res. Handle sample_env (HandlersList [Leaf 0, Leaf 1, Leaf 2]) c r s = Inr res"
    by simp
  then have "\<exists>res. Handle sample_env (HandlersList [Leaf 0, Leaf 1, Leaf 2]) 0 sample_record
      (0, [], 0) = Inr res"
    by blast
  with r three show ?thesis by (intro conjI)
qed

section \<open>Flattening\<close>

lemma leafy_iff: "(k \<noteq> NilHandler \<and> internal_handlers k = None) \<longleftrightarrow> (\<exists>x. k = Leaf x)"
  by (cases k) auto

lemma flatten_absorb:
  assumes "\<forall>y\<in>set ys. \<forall>z. y \<noteq> HandlersList [z]"
  shows "expand (represent (flatten ys)) = flatten ys"
proof (cases "flatten ys")
  case Nil
  then show ?thesis by (simp add: represent_def expand_def)
next
  case (Cons a as)
  note fl = Cons
  show ?thesis
  proof (cases as)
    case Nil
    with fl have "flatten ys = [a]" by simp
    from single_is_argument [OF this assms] this show ?thesis
      by (simp add: represent_def expand_def)
  next
    case (Cons b bs)
    with fl show ?thesis
      by (cases bs) (simp_all add: represent_def expand_def)
  qed
qed

lemma flatten_append: "flatten (xs @ ys) = flatten xs @ flatten ys"
  by (simp add: flatten_def)

lemma flatten_nested:
  assumes "\<forall>y\<in>set ys. \<forall>z. y \<noteq> HandlersList [z]"
  shows "flatten (represent (flatten ys) # zs) = flatten (ys @ zs)"
  using flatten_absorb [OF assms] by (simp add: flatten_def)

lemma Handlers_value_nested:
  assumes "\<forall>y\<in>set ys. \<forall>z. y \<noteq> HandlersList [z]"
  shows "Handlers_value g1 (Handlers_value g2 ys m2 # zs) m1 = Handlers_value g3 (ys @ zs) m3"
  by (simp add: Handlers_value_represent flatten_nested [OF assms])

lemma flatten_leafy:
  assumes "\<forall>y\<in>set ys. internal_handlers y = None \<or> one_level y"
  shows "\<forall>k\<in>set (flatten ys). \<exists>x. k = Leaf x"
proof
  fix k assume "k \<in> set (flatten ys)"
  from flatten_member [OF this] obtain y where y: "y \<in> set ys" "k \<in> set (expand y)" by blast
  show "\<exists>x. k = Leaf x"
  proof (cases "internal_handlers y")
    case None
    with y(2) have "k = y" "y \<noteq> NilHandler" by (auto simp: expand_def split: if_splits)
    with None show ?thesis using leafy_iff by blast
  next
    case (Some cs)
    with y(2) have "k \<in> set cs" by (auto simp: expand_def split: if_splits)
    moreover from Some assms y(1) have "one_level y" by auto
    ultimately show ?thesis using Some leafy_iff by (auto simp: one_level_def list_all_iff)
  qed
qed

lemma one_level_represent:
  assumes "\<forall>k\<in>set fl. \<exists>x. k = Leaf x"
  shows "one_level (represent fl)"
proof (cases fl)
  case Nil
  then show ?thesis by (simp add: represent_def one_level_def)
next
  case (Cons a as)
  note fl = Cons
  show ?thesis
  proof (cases as)
    case Nil
    with fl assms show ?thesis by (auto simp: represent_def one_level_def)
  next
    case (Cons b bs)
    with fl assms show ?thesis
      by (cases bs) (auto simp: represent_def one_level_def list_all_iff)
  qed
qed

lemma handlers_WithAttrs_leafy:
  assumes "leaf_closed E"
  shows "\<forall>k\<in>set hs. \<exists>x. k = Leaf x \<Longrightarrow> handlers_WithAttrs E hs a s = Inr (hs', s') \<Longrightarrow>
         \<forall>k\<in>set hs'. \<exists>x. k = Leaf x"
proof (induction hs arbitrary: a s hs' s')
  case Nil
  then show ?case by simp
next
  case (Cons h hs)
  from Cons.prems(1) obtain x where h: "h = Leaf x" by auto
  from assms have cl: "\<exists>y. l_WithAttrs E x b = Leaf y" for b by (simp add: leaf_closed_def)
  show ?case
  proof (cases hs)
    case Nil
    with Cons.prems(2) h cl [of a] show ?thesis by auto
  next
    case (Cons k ks)
    with Cons.prems(2) h obtain b a' m' gs where
      sp: "split_attrs a (fst s) = Inr (b, a', m')"
      and rest: "handlers_WithAttrs E hs a' (m', snd s @ [(x, b)]) = Inr (gs, s')"
      and hs': "hs' = l_WithAttrs E x b # gs"
      by (auto split: sum.splits prod.splits)
    from Cons.prems(1) have "\<forall>k\<in>set hs. \<exists>x. k = Leaf x" by simp
    from Cons.IH [OF this rest] hs' cl [of b] show ?thesis by auto
  qed
qed

lemma handlers_WithGroup_leafy:
  assumes "leaf_closed E"
  shows "\<forall>k\<in>set hs. \<exists>x. k = Leaf x \<Longrightarrow> handlers_WithGroup E hs n = Inr hs' \<Longrightarrow>
         \<forall>k\<in>set hs'. \<exists>x. k = Leaf x"
proof (induction hs arbitrary: hs')
  case Nil
  then show ?case by simp
next
  case (Cons h hs)
  from Cons.prems(1) obtain x where h: "h = Leaf x" by auto
  from assms have cl: "\<exists>y. l_WithGroup E x n = Leaf y" by (simp add: leaf_closed_def)
  from Cons.prems(2) h obtain gs where
    rest: "handlers_WithGroup E hs n = Inr gs" and hs': "hs' = l_WithGroup E x n # gs"
    by (auto split: sum.splits)
  from Cons.prems(1) have "\<forall>k\<in>set hs. \<exists>x. k = Leaf x" by simp
  from Cons.IH [OF this rest] hs' cl show ?case by auto
qed

lemma one_level_children:
  "one_level h \<Longrightarrow> internal_handlers h = Some cs \<Longrightarrow> \<forall>k\<in>set cs. \<exists>x. k = Leaf x"
  using leafy_iff by (auto simp: one_level_def list_all_iff)

lemma children_one_level:
  "internal_handlers h = Some cs \<Longrightarrow> \<forall>k\<in>set cs. \<exists>x. k = Leaf x \<Longrightarrow> one_level h"
  by (auto simp: one_level_def list_all_iff)

lemma WithAttrs_one_level:
  assumes "leaf_closed E" and "one_level h" and "internal_handlers h \<noteq> None"
    and "WithAttrs E h a s = Inr (h', s')"
  shows "one_level h'"
proof (cases h)
  case Handler0
  with assms(4) show ?thesis by (simp add: one_level_def)
next
  case (Handler2 h0 h1)
  with one_level_children [OF assms(2)] have "\<forall>k\<in>set [h0, h1]. \<exists>x. k = Leaf x" by simp
  moreover from assms(4) Handler2 obtain gs where
    "handlers_WithAttrs E [h0, h1] a s = Inr (gs, s')" and "internal_handlers h' = Some gs"
    by (auto split: sum.splits prod.splits)
  ultimately show ?thesis
    using handlers_WithAttrs_leafy [OF assms(1)] children_one_level by blast
next
  case (HandlersList hs)
  with one_level_children [OF assms(2)] have "\<forall>k\<in>set hs. \<exists>x. k = Leaf x" by simp
  moreover from assms(4) HandlersList obtain gs where
    "handlers_WithAttrs E hs a s = Inr (gs, s')" and "internal_handlers h' = Some gs"
    by (auto split: sum.splits prod.splits)
  ultimately show ?thesis
    using handlers_WithAttrs_leafy [OF assms(1)] children_one_level by blast
qed (use assms(3) in auto)

lemma WithGroup_one_level:
  assumes "leaf_closed E" and "one_level h" and "internal_handlers h \<noteq> None"
    and "WithGroup E h n = Inr h'"
  shows "one_level h'"
proof (cases h)
  case Handler0
  with assms(4) show ?thesis by (simp add: one_level_def)
next
  case (Handler2 h0 h1)
  with one_level_children [OF assms(2)] have "\<forall>k\<in>set [h0, h1]. \<exists>x. k = Leaf x" by simp
  moreover from assms(4) Handler2 obtain gs where
    "handlers_WithGroup E [h0, h1] n = Inr gs" and "internal_handlers h' = Some gs"
    by (auto split: sum.splits prod.splits)
  ultimately show ?thesis
    using handlers_WithGroup_leafy [OF assms(1)] children_one_level by blast
next
  case (HandlersList hs)
  with one_level_children [OF assms(2)] have "\<forall>k\<in>set hs. \<exists>x. k = Leaf x" by simp
  moreover from assms(4) HandlersList obtain gs where
    "handlers_WithGroup E hs n = Inr gs" and "internal_handlers h' = Some gs"
    by (auto split: sum.splits prod.splits)
  ultimately show ?thesis
    using handlers_WithGroup_leafy [OF assms(1)] children_one_level by blast
qed (use assms(3) in auto)

lemma reachable_one_level:
  assumes "leaf_closed E"
  shows "reachable E h \<Longrightarrow> one_level h"
proof (induction rule: reachable.induct)
  case (made m hs g r m')
  from made.IH have "\<forall>y\<in>set (sl_read m hs). internal_handlers y = None \<or> one_level y" by blast
  from one_level_represent [OF flatten_leafy [OF this]] handler_of_made [OF made.hyps(1,2)]
  show ?case by simp
next
  case (decorated h a s h' s')
  from WithAttrs_one_level [OF assms decorated.IH decorated.hyps(2,3)] show ?case .
next
  case (grouped h n h')
  from WithGroup_one_level [OF assms grouped.IH grouped.hyps(2,3)] show ?case .
qed

lemma leaf_calls_fst_subset: "set (map fst (leaf_calls E xs c r w)) \<subseteq> set xs"
  by (induction xs arbitrary: w) auto

lemma leaf_calls_distinct: "distinct xs \<Longrightarrow> distinct (map fst (leaf_calls E xs c r w))"
proof (induction xs arbitrary: w)
  case Nil
  show ?case by simp
next
  case (Cons x xs)
  then show ?case using leaf_calls_fst_subset [of E xs c r] by (auto simp del: set_map)
qed

lemma Handlers_value_reachable:
  assumes "\<forall>x\<in>set xs. internal_handlers x = None \<or> reachable E x"
  shows "reachable E (Handlers_value g xs m)"
proof -
  define hs where "hs = \<lparr>arr = length m, off = 0, len = length xs, cap = length xs\<rparr>"
  obtain r m' where run: "Handlers g hs (m @ [xs]) = (r, m')"
    by (cases "Handlers g hs (m @ [xs])")
  have v: "sl_valid (m @ [xs]) hs" by (simp add: sl_valid_def hs_def)
  have rd: "sl_read (m @ [xs]) hs = xs" by (simp add: sl_read_def hs_def)
  with assms have "\<forall>x\<in>set (sl_read (m @ [xs]) hs). internal_handlers x = None \<or> reachable E x"
    by simp
  from reachable.made [OF v this run] run show ?thesis
    by (simp add: Handlers_value_def Handlers_of_def hs_def [symmetric])
qed

lemma argument_not_single:
  assumes "internal_handlers y = None \<or> reachable E y"
  shows "y \<noteq> HandlersList [z]"
proof
  assume y: "y = HandlersList [z]"
  with assms have "reachable E y" by auto
  from reachable_list_length [OF this y] show False by simp
qed

text \<open>
  The two compositions agree. For handlers \<open>A\<close>, \<open>B\<close>, \<open>C\<close> that are nil, foreign or
  obtained through the public interface, \<^verbatim>\<open>Handlers(Handlers(A, B), C)\<close> and
  \<^verbatim>\<open>Handlers(A, B, C)\<close> are the same handler, the representation of the flattened arguments, so \<^verbatim>\<open>Enabled\<close>,
  \<^verbatim>\<open>Handle\<close> (dispatch and error aggregation), \<^verbatim>\<open>WithAttrs\<close> and \<^verbatim>\<open>WithGroup\<close> give the
  same results on both; for three foreign handlers the calls they receive are those of
  the dispatch discipline over the three, none of them called twice. The handler made is
  obtainable through the public interface, and if decorating a foreign handler always
  gives a foreign handler, then no handler obtainable through the public interface has a
  composite (or nil) as a direct child.
\<close>

theorem flattening_equivalence:
  assumes "\<forall>h\<in>{A, B, C}. internal_handlers h = None \<or> reachable E h"
  shows "Handlers_value g1 [Handlers_value g2 [A, B] m2, C] m1 = Handlers_value g3 [A, B, C] m3 \<and>
     Handlers_value g3 [A, B, C] m3 = represent (flatten [A, B, C]) \<and>
     (\<forall>c l w. Enabled E (Handlers_value g1 [Handlers_value g2 [A, B] m2, C] m1) c l w =
               Enabled E (Handlers_value g3 [A, B, C] m3) c l w) \<and>
     (\<forall>c r s. Handle E (Handlers_value g1 [Handlers_value g2 [A, B] m2, C] m1) c r s =
               Handle E (Handlers_value g3 [A, B, C] m3) c r s) \<and>
     (\<forall>a s. WithAttrs E (Handlers_value g1 [Handlers_value g2 [A, B] m2, C] m1) a s =
             WithAttrs E (Handlers_value g3 [A, B, C] m3) a s) \<and>
     (\<forall>n. WithGroup E (Handlers_value g1 [Handlers_value g2 [A, B] m2, C] m1) n =
           WithGroup E (Handlers_value g3 [A, B, C] m3) n) \<and>
     (\<forall>a b d. A = Leaf a \<and> B = Leaf b \<and> C = Leaf d \<longrightarrow>
        (\<forall>c r w tr n. \<exists>e w' n'.
           Handle E (Handlers_value g1 [Handlers_value g2 [A, B] m2, C] m1) c r (w, tr, n) =
             Inr (e, (w', tr @ leaf_calls E [a, b, d] c r w, n')) \<and>
           (distinct [a, b, d] \<longrightarrow> distinct (map fst (leaf_calls E [a, b, d] c r w))))) \<and>
     reachable E (Handlers_value g3 [A, B, C] m3) \<and>
     (leaf_closed E \<longrightarrow> (\<forall>h. reachable E h \<longrightarrow> one_level h))"
proof -
  from assms have "\<forall>y\<in>set [A, B]. \<forall>z. y \<noteq> HandlersList [z]"
    using argument_not_single [of _ E] by simp
  from Handlers_value_nested [OF this, of g1 g2 m2 "[C]" m1 g3 m3]
  have eq: "Handlers_value g1 [Handlers_value g2 [A, B] m2, C] m1 = Handlers_value g3 [A, B, C] m3"
    by simp
  have rep: "Handlers_value g3 [A, B, C] m3 = represent (flatten [A, B, C])"
    by (rule Handlers_value_represent)
  have once: "\<exists>e w' n'. Handle E (Handlers_value g3 [A, B, C] m3) c r (w, tr, n) =
             Inr (e, (w', tr @ leaf_calls E [a, b, d] c r w, n')) \<and>
           (distinct [a, b, d] \<longrightarrow> distinct (map fst (leaf_calls E [a, b, d] c r w)))"
    if "A = Leaf a \<and> B = Leaf b \<and> C = Leaf d" for a b d c r w tr n
  proof -
    from that have h: "Handlers_value g3 [A, B, C] m3 = HandlersList (map Leaf [a, b, d])"
      by (simp add: Handlers_value_represent flatten_def expand_def represent_def)
    have "internal_handlers (HandlersList (map Leaf [a, b, d])) = Some (map Leaf [a, b, d])"
      and "HandlersList (map Leaf [a, b, d]) \<noteq> HandlersList []" by simp_all
    note run = Handle_leaves [OF this, of E c r "(w, tr, n)"]
    from report_shape [of "leaf_errors E [a, b, d] c r w" "leaf_world E [a, b, d] c r w"
        "tr @ leaf_calls E [a, b, d] c r w" n] obtain e n' where
      "report (leaf_errors E [a, b, d] c r w)
         (leaf_world E [a, b, d] c r w, tr @ leaf_calls E [a, b, d] c r w, n) =
       (e, (leaf_world E [a, b, d] c r w, tr @ leaf_calls E [a, b, d] c r w, n'))"
      by blast
    with run have "Handle E (HandlersList (map Leaf [a, b, d])) c r (w, tr, n) =
            Inr (e, (leaf_world E [a, b, d] c r w, tr @ leaf_calls E [a, b, d] c r w, n'))"
      by (simp only: fst_conv snd_conv)
    then have "\<exists>e w' n'. Handle E (HandlersList (map Leaf [a, b, d])) c r (w, tr, n) =
            Inr (e, (w', tr @ leaf_calls E [a, b, d] c r w, n'))" by blast
    with h leaf_calls_distinct [of "[a, b, d]" E c r w] show ?thesis by (simp only:) blast
  qed
  from assms have "\<forall>x\<in>set [A, B, C]. internal_handlers x = None \<or> reachable E x" by simp
  from Handlers_value_reachable [OF this] have re: "reachable E (Handlers_value g3 [A, B, C] m3)" .
  have lvl: "leaf_closed E \<longrightarrow> (\<forall>h. reachable E h \<longrightarrow> one_level h)"
    using reachable_one_level by blast
  from once have once': "\<forall>a b d. A = Leaf a \<and> B = Leaf b \<and> C = Leaf d \<longrightarrow>
        (\<forall>c r w tr n. \<exists>e w' n'.
           Handle E (Handlers_value g3 [A, B, C] m3) c r (w, tr, n) =
             Inr (e, (w', tr @ leaf_calls E [a, b, d] c r w, n')) \<and>
           (distinct [a, b, d] \<longrightarrow> distinct (map fst (leaf_calls E [a, b, d] c r w))))"
    by blast
  show ?thesis unfolding eq
    by (intro conjI allI refl rep once' re lvl)
qed

lemma sample_env_closed: "leaf_closed sample_env"
  by (simp add: leaf_closed_def sample_env_def)

theorem flattening_equivalence_witness:
  "internal_handlers (Leaf 0) = None \<and> internal_handlers (Leaf 1) = None \<and>
   internal_handlers (Leaf 2) = None \<and>
   Handlers_value doubling [Handlers_value tight [Leaf 0, Leaf 1] [], Leaf 2] [] =
     Handlers_value tight [Leaf 0, Leaf 1, Leaf 2] [] \<and>
   Handlers_value tight [Leaf 0, Leaf 1, Leaf 2] [] = HandlersList [Leaf 0, Leaf 1, Leaf 2] \<and>
   leaf_closed sample_env \<and>
   one_level (Handlers_value tight [Leaf 0, Leaf 1, Leaf 2] [])"
proof -
  have a: "\<forall>h\<in>{Leaf 0, Leaf 1, Leaf 2}. internal_handlers h = None \<or> reachable sample_env h"
    by simp
  note t = flattening_equivalence [OF a, of doubling tight "[]" "[]" tight "[]"]
  from t have eq: "Handlers_value doubling [Handlers_value tight [Leaf 0, Leaf 1] [], Leaf 2] [] =
     Handlers_value tight [Leaf 0, Leaf 1, Leaf 2] []"
    by (rule conjunct1)
  from t have "Handlers_value tight [Leaf 0, Leaf 1, Leaf 2] [] =
     represent (flatten [Leaf 0, Leaf 1, Leaf 2])"
    by (rule conjunct2 [THEN conjunct1])
  then have val: "Handlers_value tight [Leaf 0, Leaf 1, Leaf 2] [] = HandlersList [Leaf 0, Leaf 1, Leaf 2]"
    by (simp add: flatten_def expand_def represent_def)
  from t have "reachable sample_env (Handlers_value tight [Leaf 0, Leaf 1, Leaf 2] [])"
    by (elim conjE)
  moreover from t have "leaf_closed sample_env \<longrightarrow> (\<forall>h. reachable sample_env h \<longrightarrow> one_level h)"
    by (elim conjE)
  ultimately have "one_level (Handlers_value tight [Leaf 0, Leaf 1, Leaf 2] [])"
    using sample_env_closed by blast
  with eq val sample_env_closed show ?thesis by simp
qed

text \<open>
  C1. The claim that a composite never contains another composite as a direct child is
  what the factory relies on (its comment: recursion is not necessary as all internal
  handlers have been created using this function), and the code breaks it:
  \<^verbatim>\<open>handler2.WithGroup\<close> (and likewise \<^verbatim>\<open>WithAttrs\<close>, and both methods of \<^verbatim>\<open>handlers\<close>) builds
  the new composite itself, from whatever its children return, without the factory. With
  two foreign handlers whose own \<^verbatim>\<open>WithGroup\<close> returns a pair made by the factory,
  \<^verbatim>\<open>Handlers(F0, F1).WithGroup("req")\<close> is a pair of pairs, and the factory applied to it
  and a further handler splices one level only and returns a list that holds pairs,
  whereas the factory applied to the same two pairs directly returns the flat list of
  the five foreign handlers.
\<close>

theorem nested_composite_counterexample:
  "Handlers_value tight [Leaf 0, Leaf 1] [] = Handler2 (Leaf 0) (Leaf 1) \<and>
   l_WithGroup forwarding_env 0 ''req'' = Handlers_value tight [Leaf 10, Leaf 20] [] \<and>
   l_WithGroup forwarding_env 1 ''req'' = Handlers_value tight [Leaf 11, Leaf 21] [] \<and>
   WithGroup forwarding_env (Handler2 (Leaf 0) (Leaf 1)) ''req'' =
     Inr (Handler2 (Handler2 (Leaf 10) (Leaf 20)) (Handler2 (Leaf 11) (Leaf 21))) \<and>
   internal_handlers (Handler2 (Leaf 10) (Leaf 20)) = Some [Leaf 10, Leaf 20] \<and>
   \<not> one_level (Handler2 (Handler2 (Leaf 10) (Leaf 20)) (Handler2 (Leaf 11) (Leaf 21))) \<and>
   Handlers_value tight
     [Handler2 (Handler2 (Leaf 10) (Leaf 20)) (Handler2 (Leaf 11) (Leaf 21)), Leaf 5] [] =
     HandlersList [Handler2 (Leaf 10) (Leaf 20), Handler2 (Leaf 11) (Leaf 21), Leaf 5] \<and>
   \<not> one_level (HandlersList [Handler2 (Leaf 10) (Leaf 20), Handler2 (Leaf 11) (Leaf 21), Leaf 5]) \<and>
   Handlers_value tight [Handler2 (Leaf 10) (Leaf 20), Handler2 (Leaf 11) (Leaf 21), Leaf 5] [] =
     HandlersList [Leaf 10, Leaf 20, Leaf 11, Leaf 21, Leaf 5]"
  by (simp add: Handlers_value_represent flatten_def expand_def represent_def
                forwarding_env_def one_level_def)

section \<open>WithAttrs\<close>

lemma write_at_length: "i + length vs \<le> length xs \<Longrightarrow> length (write_at xs i vs) = length xs"
  by (simp add: write_at_def)

lemma write_at_nth:
  "i + length vs \<le> length xs \<Longrightarrow> j < length xs \<Longrightarrow>
   write_at xs i vs ! j = (if i \<le> j \<and> j < i + length vs then vs ! (j - i) else xs ! j)"
  by (auto simp: write_at_def nth_append)

lemma sl_read_length: "sl_valid m s \<Longrightarrow> length (sl_read m s) = len s"
  by (auto simp: sl_valid_def sl_read_def)

lemma sl_read_nth: "sl_valid m s \<Longrightarrow> k < len s \<Longrightarrow> sl_read m s ! k = m ! arr s ! (off s + k)"
  by (auto simp: sl_valid_def sl_read_def)

lemma sl_read_eqI:
  assumes "sl_valid m s" and "sl_valid m' t" and "len s = len t"
    and "\<And>k. k < len s \<Longrightarrow> m ! arr s ! (off s + k) = m' ! arr t ! (off t + k)"
  shows "sl_read m s = sl_read m' t"
proof (rule nth_equalityI)
  show "length (sl_read m s) = length (sl_read m' t)"
    using assms(1-3) by (simp add: sl_read_length)
next
  fix k assume "k < length (sl_read m s)"
  with assms(1) have k: "k < len s" by (simp add: sl_read_length)
  with assms show "sl_read m s ! k = sl_read m' t ! k"
    by (simp add: sl_read_nth)
qed

lemma only_changed_refl: "only_changed m m b lo hi"
  by (simp add: only_changed_def)

lemma only_changed_trans:
  assumes "only_changed m m1 b lo1 hi1" and "only_changed m1 m2 b lo2 hi2"
    and "lo \<le> lo1" "lo \<le> lo2" "hi1 \<le> hi" "hi2 \<le> hi"
  shows "only_changed m m2 b lo hi"
  unfolding only_changed_def
proof (intro conjI allI impI)
  from assms(1,2) show "length m \<le> length m2" by (simp add: only_changed_def)
next
  fix c assume c: "c < length m"
  with assms(1) have c1: "c < length m1" and l1: "length (m1 ! c) = length (m ! c)"
    by (simp_all add: only_changed_def)
  with assms(2) show "length (m2 ! c) = length (m ! c)" by (simp add: only_changed_def)
next
  fix c i assume c: "c < length m" and i: "i < length (m ! c)"
  with assms(1) have c1: "c < length m1" and l1: "length (m1 ! c) = length (m ! c)"
    and a: "(c = b \<and> lo1 \<le> i \<and> i < hi1) \<or> m1 ! c ! i = m ! c ! i"
    by (simp_all add: only_changed_def)
  from assms(2) c1 i l1 have "(c = b \<and> lo2 \<le> i \<and> i < hi2) \<or> m2 ! c ! i = m1 ! c ! i"
    by (simp add: only_changed_def)
  with a assms(3-6) show "(c = b \<and> lo \<le> i \<and> i < hi) \<or> m2 ! c ! i = m ! c ! i"
    by auto
qed

lemma only_changed_read:
  assumes "only_changed m m' b lo hi" and "sl_valid m s"
    and "arr s \<noteq> b \<or> off s + len s \<le> lo \<or> hi \<le> off s"
  shows "sl_valid m' s \<and> sl_read m' s = sl_read m s"
proof -
  from assms(2) have a: "arr s < length m" "len s \<le> cap s" "off s + cap s \<le> length (m ! arr s)"
    by (simp_all add: sl_valid_def)
  with assms(1) have l: "length (m' ! arr s) = length (m ! arr s)" "arr s < length m'"
    by (simp_all add: only_changed_def)
  with a have v: "sl_valid m' s" by (simp add: sl_valid_def)
  have "m' ! arr s ! (off s + k) = m ! arr s ! (off s + k)" if "k < len s" for k
  proof -
    from that a have "off s + k < length (m ! arr s)" by simp
    with assms(1) a(1) have "(arr s = b \<and> lo \<le> off s + k \<and> off s + k < hi) \<or>
        m' ! arr s ! (off s + k) = m ! arr s ! (off s + k)"
      by (simp add: only_changed_def)
    with assms(3) that show ?thesis by auto
  qed
  with v assms(2) have "sl_read m' s = sl_read m s"
    by (intro sl_read_eqI) simp_all
  with v show ?thesis by simp
qed

lemma split_attrs_spare:
  assumes v: "sl_valid m attrs" and big: "len attrs \<le> cap attrs - len attrs"
    and sp: "split_attrs attrs m = Inr (a, attrs', m')"
  shows "a = \<lparr>arr = arr attrs, off = off attrs + (cap attrs - len attrs), len = len attrs,
              cap = len attrs\<rparr> \<and>
         attrs' = \<lparr>arr = arr attrs, off = off attrs, len = len attrs, cap = cap attrs - len attrs\<rparr> \<and>
         length m' = length m \<and>
         only_changed m m' (arr attrs) (off a) (off a + cap a) \<and>
         sl_valid m' a \<and> sl_valid m' attrs' \<and>
         sl_read m' a = sl_read m attrs \<and> sl_read m' attrs' = sl_read m attrs"
proof -
  define tail where "tail = cap attrs - len attrs"
  define xs where "xs = m ! arr attrs"
  define vs where "vs = sl_read m attrs"
  from v have vl: "len attrs \<le> cap attrs" "arr attrs < length m"
    "off attrs + cap attrs \<le> length xs"
    by (simp_all add: sl_valid_def xs_def)
  from vl have ct: "cap attrs - tail = len attrs" by (simp add: tail_def)
  have lv: "length vs = len attrs" by (simp add: vs_def sl_read_length [OF v])
  from sp big ct have a: "a = \<lparr>arr = arr attrs, off = off attrs + tail, len = len attrs,
              cap = len attrs\<rparr>"
    and a': "attrs' = \<lparr>arr = arr attrs, off = off attrs, len = len attrs, cap = tail\<rparr>"
    and m': "m' = sl_copy m a attrs'"
    by (auto simp: split_attrs_def reslice2_def reslice3_def Let_def tail_def [symmetric]
             split: if_splits)
  have rd': "sl_read m attrs' = vs" by (simp add: a' vs_def sl_read_def)
  then have cp: "m' = (if vs = [] then m else m[arr attrs := write_at xs (off attrs + tail) vs])"
    by (simp add: m' sl_copy_def a a' lv [symmetric] xs_def)
  from vl lv big have fit: "(off attrs + tail) + length vs \<le> length xs"
    by (simp add: tail_def)
  have len_m': "length m' = length m" by (simp add: cp)
  have arr': "m' ! arr attrs = (if vs = [] then xs else write_at xs (off attrs + tail) vs)"
    using vl(2) by (simp add: cp xs_def)
  have lxs: "length (m' ! arr attrs) = length xs"
    by (simp add: arr' write_at_length [OF fit])
  have cell: "m' ! arr attrs ! j =
      (if off attrs + tail \<le> j \<and> j < off attrs + tail + len attrs then vs ! (j - (off attrs + tail))
       else xs ! j)" if "j < length xs" for j
  proof (cases "vs = []")
    case True
    with lv arr' show ?thesis by auto
  next
    case False
    with arr' write_at_nth [OF fit that] lv show ?thesis by simp
  qed
  have other: "m' ! c = m ! c" if "c \<noteq> arr attrs" for c
    using that by (simp add: cp)
  have oc: "only_changed m m' (arr attrs) (off a) (off a + cap a)"
    unfolding only_changed_def
  proof (intro conjI allI impI)
    show "length m \<le> length m'" by (simp add: len_m')
  next
    fix c assume "c < length m"
    show "length (m' ! c) = length (m ! c)"
      by (cases "c = arr attrs") (simp_all add: lxs xs_def other)
  next
    fix c i assume "c < length m" "i < length (m ! c)"
    then show "(c = arr attrs \<and> off a \<le> i \<and> i < off a + cap a) \<or> m' ! c ! i = m ! c ! i"
      using cell [of i] by (cases "c = arr attrs") (auto simp: other xs_def a)
  qed
  from vl lxs len_m' big have va: "sl_valid m' a" and va': "sl_valid m' attrs'"
    by (simp_all add: sl_valid_def a a' tail_def xs_def)
  have ra: "sl_read m' a = sl_read m attrs"
  proof (rule sl_read_eqI [OF va v])
    show "len a = len attrs" by (simp add: a)
  next
    fix k assume "k < len a"
    then have k: "k < len attrs" by (simp add: a)
    with fit lv have "off attrs + tail + k < length xs" by simp
    from cell [OF this] k have "m' ! arr attrs ! (off attrs + tail + k) = vs ! k" by simp
    with k show "m' ! arr a ! (off a + k) = m ! arr attrs ! (off attrs + k)"
      by (simp add: a vs_def sl_read_nth [OF v])
  qed
  have ra': "sl_read m' attrs' = sl_read m attrs"
  proof (rule sl_read_eqI [OF va' v])
    show "len attrs' = len attrs" by (simp add: a')
  next
    fix k assume "k < len attrs'"
    then have k: "k < len attrs" by (simp add: a')
    with vl have "off attrs + k < length xs" by simp
    moreover from k big have "\<not> off attrs + tail \<le> off attrs + k" by (simp add: tail_def)
    ultimately have "m' ! arr attrs ! (off attrs + k) = xs ! (off attrs + k)"
      using cell [of "off attrs + k"] by simp
    then show "m' ! arr attrs' ! (off attrs' + k) = m ! arr attrs ! (off attrs + k)"
      by (simp add: a' xs_def)
  qed
  from a a' len_m' oc va va' ra ra' show ?thesis by (simp add: tail_def)
qed

lemma split_attrs_fresh:
  assumes v: "sl_valid m attrs" and small: "\<not> len attrs \<le> cap attrs - len attrs"
    and sp: "split_attrs attrs m = Inr (a, attrs', m')"
  shows "a = \<lparr>arr = length m, off = 0, len = len attrs, cap = len attrs\<rparr> \<and>
         attrs' = attrs \<and> m' = m @ [sl_read m attrs]"
proof -
  define vs where "vs = sl_read m attrs"
  have lv: "length vs = len attrs" by (simp add: vs_def sl_read_length [OF v])
  from small have pos: "0 < len attrs" by simp
  with lv have ne: "vs \<noteq> []" by auto
  from v have "arr attrs < length m" by (simp add: sl_valid_def)
  then have rd: "sl_read (m @ [replicate (len attrs) zero_attr]) attrs = vs"
    by (simp add: sl_read_def vs_def nth_append)
  from sp small have a: "a = \<lparr>arr = length m, off = 0, len = len attrs, cap = len attrs\<rparr>"
    and a': "attrs' = attrs"
    and m': "m' = sl_copy (m @ [replicate (len attrs) zero_attr]) a attrs"
    by (auto simp: split_attrs_def Let_def sl_make_def split: if_splits)
  from rd ne lv have "m' = (m @ [replicate (len attrs) zero_attr])
      [length m := write_at (replicate (len attrs) zero_attr) 0 vs]"
    by (simp add: m' sl_copy_def a)
  with lv have "m' = m @ [vs]" by (simp add: write_at_def)
  with a a' show ?thesis by (simp add: vs_def)
qed

lemma only_changed_fresh: "only_changed m (m @ [vs]) b lo hi"
  by (simp add: only_changed_def nth_append)

lemma split_attrs_step:
  assumes v: "sl_valid m attrs" and sp: "split_attrs attrs m = Inr (a, attrs', m')"
  shows "arr attrs' = arr attrs \<and> off attrs' = off attrs \<and> len attrs' = len attrs \<and>
         len attrs \<le> cap attrs' \<and> cap attrs' \<le> cap attrs \<and>
         len a = len attrs \<and> cap a = len attrs \<and>
         ((arr a = arr attrs \<and> off attrs + cap attrs' \<le> off a \<and>
           off a + cap a \<le> off attrs + cap attrs) \<or> arr a = length m) \<and>
         arr a < length m' \<and> length m \<le> length m' \<and>
         only_changed m m' (arr attrs) (off attrs + cap attrs') (off attrs + cap attrs) \<and>
         sl_valid m' a \<and> sl_valid m' attrs' \<and>
         sl_read m' a = sl_read m attrs \<and> sl_read m' attrs' = sl_read m attrs"
proof (cases "len attrs \<le> cap attrs - len attrs")
  case True
  note s = split_attrs_spare [OF v True sp]
  from v have vl: "len attrs \<le> cap attrs" "arr attrs < length m" by (simp_all add: sl_valid_def)
  from s have a: "a = \<lparr>arr = arr attrs, off = off attrs + (cap attrs - len attrs),
      len = len attrs, cap = len attrs\<rparr>"
    and a': "attrs' = \<lparr>arr = arr attrs, off = off attrs, len = len attrs,
      cap = cap attrs - len attrs\<rparr>"
    and lm: "length m' = length m"
    by simp_all
  from s have oc: "only_changed m m' (arr attrs) (off a) (off a + cap a)" by (elim conjE)
  from vl have "off a = off attrs + cap attrs'" "off a + cap a = off attrs + cap attrs"
    by (simp_all add: a a')
  with oc have oc': "only_changed m m' (arr attrs) (off attrs + cap attrs') (off attrs + cap attrs)"
    by (simp only:)
  from s have r1: "sl_valid m' a" by (elim conjE)
  from s have r2: "sl_valid m' attrs'" by (elim conjE)
  from s have r3: "sl_read m' a = sl_read m attrs" by (elim conjE)
  from s have r4: "sl_read m' attrs' = sl_read m attrs" by (elim conjE)
  note rest = r1 r2 r3 r4
  have hd: "arr attrs' = arr attrs \<and> off attrs' = off attrs \<and> len attrs' = len attrs \<and>
         len attrs \<le> cap attrs' \<and> cap attrs' \<le> cap attrs \<and>
         len a = len attrs \<and> cap a = len attrs \<and>
         ((arr a = arr attrs \<and> off attrs + cap attrs' \<le> off a \<and>
           off a + cap a \<le> off attrs + cap attrs) \<or> arr a = length m) \<and>
         arr a < length m' \<and> length m \<le> length m'"
    using True vl lm by (simp add: a a')
  from hd oc' rest show ?thesis by blast
next
  case False
  note s = split_attrs_fresh [OF v False sp]
  from v have vl: "len attrs \<le> cap attrs" "arr attrs < length m"
    "off attrs + cap attrs \<le> length (m ! arr attrs)"
    by (simp_all add: sl_valid_def)
  from s have a: "a = \<lparr>arr = length m, off = 0, len = len attrs, cap = len attrs\<rparr>"
    and a': "attrs' = attrs" and m': "m' = m @ [sl_read m attrs]"
    by simp_all
  have va: "sl_valid m' a" by (simp add: sl_valid_def a m' sl_read_length [OF v])
  from vl have va': "sl_valid m' attrs'" by (simp add: sl_valid_def a' m' nth_append)
  have "sl_read (m @ [vs]) \<lparr>arr = length m, off = 0, len = length vs, cap = length vs\<rparr> = vs"
    for vs :: "attr list"
    by (simp add: sl_read_def)
  from this [of "sl_read m attrs"] have ra: "sl_read m' a = sl_read m attrs"
    by (simp add: a m' sl_read_length [OF v])
  from vl have ra': "sl_read m' attrs' = sl_read m attrs"
    by (simp add: sl_read_def a' m' nth_append)
  have "only_changed m m' (arr attrs) (off attrs + cap attrs') (off attrs + cap attrs)"
    unfolding m' by (rule only_changed_fresh)
  moreover have "arr attrs' = arr attrs \<and> off attrs' = off attrs \<and> len attrs' = len attrs \<and>
         len attrs \<le> cap attrs' \<and> cap attrs' \<le> cap attrs \<and>
         len a = len attrs \<and> cap a = len attrs \<and>
         ((arr a = arr attrs \<and> off attrs + cap attrs' \<le> off a \<and>
           off a + cap a \<le> off attrs + cap attrs) \<or> arr a = length m) \<and>
         arr a < length m' \<and> length m \<le> length m'"
    using vl by (simp add: a a' m')
  ultimately show ?thesis using va va' ra ra' by blast
qed

lemma in_butlast_or_last: "s \<in> set ss \<Longrightarrow> s \<in> set (butlast ss) \<or> s = last ss"
  by (induction ss) (auto split: if_splits)

lemma carved_weaken:
  assumes "carved m1 attrs1 s" and "arr attrs1 = arr attrs" and "off attrs1 = off attrs"
    and "len attrs1 = len attrs" and "cap attrs1 \<le> cap attrs" and "length m \<le> length m1"
  shows "carved m attrs s"
  using assms by (auto simp: carved_def)

lemma handlers_WithAttrs_leaves:
  assumes "xs \<noteq> []"
  shows "sl_valid m attrs \<Longrightarrow>
     handlers_WithAttrs E (map Leaf xs) attrs (m, tr) = Inr (hs', (m', tr')) \<Longrightarrow>
     \<exists>ss. length ss = length xs \<and> tr' = tr @ zip xs ss \<and>
       hs' = map (\<lambda>(x, s). l_WithAttrs E x s) (zip xs ss) \<and>
       only_changed m m' (arr attrs) (off attrs + len attrs) (off attrs + cap attrs) \<and>
       (\<forall>s\<in>set ss. sl_valid m' s \<and> sl_read m' s = sl_read m attrs) \<and>
       (\<forall>s\<in>set (butlast ss). carved m attrs s \<and> cap s = len attrs \<and> len s = len attrs) \<and>
       arr (last ss) = arr attrs \<and> off (last ss) = off attrs \<and> len (last ss) = len attrs \<and>
       cap (last ss) \<le> cap attrs \<and>
       (\<forall>i j. i < j \<longrightarrow> j < length ss \<longrightarrow> sl_disjoint (ss ! i) (ss ! j))"
  using assms
proof (induction xs arbitrary: attrs m tr hs' m' tr')
  case Nil
  then show ?case by simp
next
  case (Cons x xs)
  show ?case
  proof (cases xs)
    case Nil
    with Cons.prems(2) have "hs' = [l_WithAttrs E x attrs]" "m' = m" "tr' = tr @ [(x, attrs)]"
      by simp_all
    with Nil Cons.prems(1) show ?thesis
      by (intro exI [of _ "[attrs]"]) (simp add: only_changed_refl)
  next
    case (Cons y ys)
    then have ne: "xs \<noteq> []" by simp
    from split_attrs_returns obtain a attrs1 m1 where
      sp: "split_attrs attrs m = Inr (a, attrs1, m1)" by blast
    from Cons.prems(2) sp Cons obtain gs where
      rest: "handlers_WithAttrs E (map Leaf xs) attrs1 (m1, tr @ [(x, a)]) = Inr (gs, (m', tr'))"
      and hs': "hs' = l_WithAttrs E x a # gs"
      by (auto split: sum.splits)
    note st = split_attrs_step [OF Cons.prems(1) sp]
    from st have hd: "arr attrs1 = arr attrs" "off attrs1 = off attrs" "len attrs1 = len attrs"
      "len attrs \<le> cap attrs1" "cap attrs1 \<le> cap attrs" "len a = len attrs" "cap a = len attrs"
      by simp_all
    from st have pos: "(arr a = arr attrs \<and> off attrs + cap attrs1 \<le> off a \<and>
           off a + cap a \<le> off attrs + cap attrs) \<or> arr a = length m" by (elim conjE)
    from st have am: "arr a < length m1" "length m \<le> length m1" by simp_all
    from st have oc1: "only_changed m m1 (arr attrs) (off attrs + cap attrs1) (off attrs + cap attrs)"
      by (elim conjE)
    from st have va: "sl_valid m1 a" by (elim conjE)
    from st have v1: "sl_valid m1 attrs1" by (elim conjE)
    from st have ra: "sl_read m1 a = sl_read m attrs" by (elim conjE)
    from st have r1: "sl_read m1 attrs1 = sl_read m attrs" by (elim conjE)
    from Cons.prems(1) have vl: "arr attrs < length m" "len attrs \<le> cap attrs"
      by (simp_all add: sl_valid_def)
    from Cons.IH [OF v1 rest ne] obtain ss1 where
      l1: "length ss1 = length xs" and t1: "tr' = (tr @ [(x, a)]) @ zip xs ss1"
      and g1: "gs = map (\<lambda>(x, s). l_WithAttrs E x s) (zip xs ss1)"
      and oc2: "only_changed m1 m' (arr attrs1) (off attrs1 + len attrs1) (off attrs1 + cap attrs1)"
      and vr: "\<forall>s\<in>set ss1. sl_valid m' s \<and> sl_read m' s = sl_read m1 attrs1"
      and bl: "\<forall>s\<in>set (butlast ss1). carved m1 attrs1 s \<and> cap s = len attrs1 \<and> len s = len attrs1"
      and la: "arr (last ss1) = arr attrs1" "off (last ss1) = off attrs1"
        "len (last ss1) = len attrs1" "cap (last ss1) \<le> cap attrs1"
      and dj: "\<forall>i j. i < j \<longrightarrow> j < length ss1 \<longrightarrow> sl_disjoint (ss1 ! i) (ss1 ! j)"
      by blast
    from l1 ne have ne1: "ss1 \<noteq> []" by auto
    define ss where "ss = a # ss1"
    have c1: "length ss = length (x # xs)" by (simp add: ss_def l1)
    have c2: "tr' = tr @ zip (x # xs) ss" by (simp add: ss_def t1)
    have c3: "hs' = map (\<lambda>(x, s). l_WithAttrs E x s) (zip (x # xs) ss)"
      by (simp add: ss_def hs' g1)
    from hd have "only_changed m1 m' (arr attrs) (off attrs + len attrs) (off attrs + cap attrs1)"
      using oc2 by simp
    from only_changed_trans [OF oc1 this] hd
    have c4: "only_changed m m' (arr attrs) (off attrs + len attrs) (off attrs + cap attrs)"
      by simp
    have far: "arr a \<noteq> arr attrs1 \<or> off a + len a \<le> off attrs1 + len attrs1 \<or>
               off attrs1 + cap attrs1 \<le> off a"
      using pos vl hd by auto
    from only_changed_read [OF oc2 va far] ra
    have a_ok: "sl_valid m' a \<and> sl_read m' a = sl_read m attrs" by simp
    with vr r1 have c5: "\<forall>s\<in>set ss. sl_valid m' s \<and> sl_read m' s = sl_read m attrs"
      by (simp add: ss_def)
    have ca: "carved m attrs a" using pos hd by (auto simp: carved_def)
    have "carved m attrs s \<and> cap s = len attrs \<and> len s = len attrs"
      if "s \<in> set (butlast ss1)" for s
      using bl that carved_weaken [OF _ hd(1,2,3,5) am(2)] hd by auto
    with ca hd ne1 have c6: "\<forall>s\<in>set (butlast ss).
        carved m attrs s \<and> cap s = len attrs \<and> len s = len attrs"
      by (simp add: ss_def)
    from la hd ne1 have c7: "arr (last ss) = arr attrs \<and> off (last ss) = off attrs \<and>
        len (last ss) = len attrs \<and> cap (last ss) \<le> cap attrs"
      by (simp add: ss_def)
    have a_dj: "sl_disjoint a s" if "s \<in> set ss1" for s
    proof -
      from in_butlast_or_last [OF that] show ?thesis
      proof
        assume "s \<in> set (butlast ss1)"
        with bl have "carved m1 attrs1 s" by simp
        with pos am vl hd show ?thesis by (auto simp: carved_def sl_disjoint_def)
      next
        assume "s = last ss1"
        with la pos am vl hd show ?thesis by (auto simp: sl_disjoint_def)
      qed
    qed
    have c8: "\<forall>i j. i < j \<longrightarrow> j < length ss \<longrightarrow> sl_disjoint (ss ! i) (ss ! j)"
    proof (intro allI impI)
      fix i j assume ij: "i < j" "j < length ss"
      then obtain j' where j': "j = Suc j'" "j' < length ss1"
        by (cases j) (auto simp: ss_def)
      show "sl_disjoint (ss ! i) (ss ! j)"
      proof (cases i)
        case 0
        with j' a_dj [of "ss1 ! j'"] show ?thesis by (simp add: ss_def)
      next
        case (Suc i')
        with ij j' dj show ?thesis by (simp add: ss_def)
      qed
    qed
    from c1 c2 c3 c4 c5 c6 c7 c8 show ?thesis by blast
  qed
qed

lemma Handler2_WithAttrs_as_list:
  "WithAttrs E (Handler2 h0 h1) attrs s =
     (case handlers_WithAttrs E [h0, h1] attrs s of
        Inl p \<Rightarrow> Inl p
      | Inr (gs, s') \<Rightarrow> Inr (Handler2 (gs ! 0) (gs ! 1), s'))"
  by (simp split: sum.splits prod.splits)

lemma composite_WithAttrs_leaves:
  assumes "internal_handlers h = Some (map Leaf xs)" and "xs \<noteq> []"
  shows "\<exists>gs s'. handlers_WithAttrs E (map Leaf xs) attrs s = Inr (gs, s') \<and>
           (\<exists>h'. WithAttrs E h attrs s = Inr (h', s') \<and>
              (length gs = length xs \<longrightarrow> internal_handlers h' = Some gs) \<and>
              ((\<exists>h0 h1. h = Handler2 h0 h1) \<longleftrightarrow> (\<exists>g0 g1. h' = Handler2 g0 g1)))"
proof -
  from handlers_WithAttrs_leaves_return [OF assms(2), of E attrs s] obtain gs s' where
    run: "handlers_WithAttrs E (map Leaf xs) attrs s = Inr (gs, s')" by (metis surj_pair)
  show ?thesis
  proof (cases h)
    case (Handler2 h0 h1)
    with assms(1) have xs: "map Leaf xs = [h0, h1]" by simp
    then have "length xs = 2" by (metis length_map length_Cons list.size(3) numeral_2_eq_2)
    have "length gs = 2 \<Longrightarrow> [gs ! 0, gs ! 1] = gs"
      by (cases gs; cases "tl gs") auto
    with run xs Handler2 \<open>length xs = 2\<close> show ?thesis
      by (auto simp: Handler2_WithAttrs_as_list simp del: WithAttrs.simps handlers_WithAttrs.simps)
  next
    case (HandlersList hs)
    with assms(1) run show ?thesis by auto
  next
    case Handler0
    with assms show ?thesis by simp
  qed (use assms(1) in auto)
qed

lemma sample_attrs_valid: "sl_valid sample_attrs_mem sample_attrs"
  by (simp add: sl_valid_def sample_attrs_mem_def sample_attrs_def)

lemma sl_store_elsewhere:
  assumes "sl_valid m attrs" and "sl_valid m s" and "i < len attrs"
    and "arr s \<noteq> arr attrs \<or> off attrs + len attrs \<le> off s"
  shows "sl_read (sl_store m attrs i v) s = sl_read m s"
proof -
  from assms(1) have a: "arr attrs < length m" by (simp add: sl_valid_def)
  from assms(2) have b: "arr s < length m" "len s \<le> cap s" "off s + cap s \<le> length (m ! arr s)"
    by (simp_all add: sl_valid_def)
  have v': "sl_valid (sl_store m attrs i v) s"
    using a b by (cases "arr s = arr attrs") (simp_all add: sl_valid_def sl_store_def)
  show ?thesis
  proof (rule sl_read_eqI [OF v' assms(2) refl])
    fix k assume "k < len s"
    with assms(3,4) a b
    show "sl_store m attrs i v ! arr s ! (off s + k) = m ! arr s ! (off s + k)"
      by (cases "arr s = arr attrs") (auto simp: sl_store_def)
  qed
qed

lemma represent_internal_None:
  "internal_handlers (represent fl) = None \<Longrightarrow> fl = [represent fl]"
  by (auto simp: represent_def split: list.splits)

lemma WithAttrs_composite:
  "internal_handlers h \<noteq> None \<Longrightarrow> WithAttrs E h a s = Inr (h', s') \<Longrightarrow>
   internal_handlers h' \<noteq> None"
  by (cases h) (auto split: sum.splits prod.splits)

lemma WithGroup_composite:
  "internal_handlers h \<noteq> None \<Longrightarrow> WithGroup E h n = Inr h' \<Longrightarrow>
   internal_handlers h' \<noteq> None"
  by (cases h) (auto split: sum.splits prod.splits)

lemma reachable_foreign:
  assumes "leaf_closed E"
  shows "reachable E h \<Longrightarrow> internal_handlers h = None \<Longrightarrow> \<exists>x. h = Leaf x"
proof (induction rule: reachable.induct)
  case (made m hs g r m')
  have "\<forall>y\<in>set (sl_read m hs). internal_handlers y = None \<or> one_level y"
    using made.IH reachable_one_level [OF assms] by blast
  note leafy = flatten_leafy [OF this]
  from handler_of_made [OF made.hyps(1,2)] made.prems
  have "internal_handlers (represent (flatten (sl_read m hs))) = None" by simp
  from represent_internal_None [OF this] leafy handler_of_made [OF made.hyps(1,2)]
  show ?case by (metis list.set_intros(1))
next
  case (decorated h a s h' s')
  from WithAttrs_composite [OF decorated.hyps(2,3)] decorated.prems show ?case by simp
next
  case (grouped h n h')
  from WithGroup_composite [OF grouped.hyps(2,3)] grouped.prems show ?case by simp
qed

text \<open>
  When decorating a foreign handler gives a foreign handler, every handler obtainable
  through the public interface is a foreign handler or a composite of foreign handlers,
  hence without a nil child and without an empty list: \<open>sound\<close>.
\<close>

lemma reachable_sound:
  assumes "leaf_closed E" and "reachable E h"
  shows "sound h"
proof (cases "internal_handlers h")
  case None
  from reachable_foreign [OF assms None] show ?thesis by auto
next
  case (Some cs)
  from one_level_children [OF reachable_one_level [OF assms] Some]
  have kids: "\<forall>k\<in>set cs. sound k" by auto
  show ?thesis
  proof (cases h)
    case (HandlersList hs)
    with reachable_list_length [OF assms(2) HandlersList] Some kids show ?thesis
      by (auto simp: list_all_iff)
  qed (use Some kids in auto)
qed

lemma all_disjoint_Cons:
  "all_disjoint (s # ss) \<longleftrightarrow> (\<forall>t\<in>set ss. sl_disjoint s t) \<and> all_disjoint ss"
proof
  assume a: "all_disjoint (s # ss)"
  have "\<forall>t\<in>set ss. sl_disjoint s t"
  proof
    fix t assume "t \<in> set ss"
    then obtain j where "j < length ss" "ss ! j = t" by (auto simp: in_set_conv_nth)
    with a [unfolded all_disjoint_def, rule_format, of 0 "Suc j"] show "sl_disjoint s t" by simp
  qed
  moreover have "all_disjoint ss"
    unfolding all_disjoint_def
  proof (intro allI impI)
    fix i j assume "i < j" "j < length ss"
    with a [unfolded all_disjoint_def, rule_format, of "Suc i" "Suc j"]
    show "sl_disjoint (ss ! i) (ss ! j)" by simp
  qed
  ultimately show "(\<forall>t\<in>set ss. sl_disjoint s t) \<and> all_disjoint ss" ..
next
  assume b: "(\<forall>t\<in>set ss. sl_disjoint s t) \<and> all_disjoint ss"
  show "all_disjoint (s # ss)"
    unfolding all_disjoint_def
  proof (intro allI impI)
    fix i j assume ij: "i < j" "j < length (s # ss)"
    then obtain j' where j': "j = Suc j'" "j' < length ss" by (cases j) auto
    show "sl_disjoint ((s # ss) ! i) ((s # ss) ! j)"
    proof (cases i)
      case 0
      with j' b show ?thesis by simp
    next
      case (Suc i')
      with ij j' b show ?thesis by (simp add: all_disjoint_def)
    qed
  qed
qed

lemma all_disjoint_Nil: "all_disjoint []"
  by (simp add: all_disjoint_def)

lemma all_disjoint_append:
  "all_disjoint (xs @ ys) \<longleftrightarrow>
     all_disjoint xs \<and> all_disjoint ys \<and> (\<forall>s\<in>set xs. \<forall>t\<in>set ys. sl_disjoint s t)"
  by (induction xs) (auto simp: all_disjoint_Cons all_disjoint_Nil)

lemma only_changed_empty:
  assumes "only_changed m m' b lo lo"
  shows "only_changed m m' b' lo' hi'"
  unfolding only_changed_def
proof (intro conjI allI impI)
  from assms show "length m \<le> length m'" by (simp add: only_changed_def)
next
  fix c assume "c < length m"
  with assms show "length (m' ! c) = length (m ! c)" by (simp add: only_changed_def)
next
  fix c i assume "c < length m" "i < length (m ! c)"
  with assms have "(c = b \<and> lo \<le> i \<and> i < lo) \<or> m' ! c ! i = m ! c ! i"
    by (simp add: only_changed_def)
  then show "(c = b' \<and> lo' \<le> i \<and> i < hi') \<or> m' ! c ! i = m ! c ! i" by auto
qed

lemma only_changed_length: "only_changed m m' b lo hi \<Longrightarrow> length m \<le> length m'"
  by (simp add: only_changed_def)

lemma placed:
  "holds_front attrs s \<or> carved m attrs s \<Longrightarrow>
   (arr s = arr attrs \<and> off attrs \<le> off s \<and> off s + cap s \<le> off attrs + cap attrs) \<or>
   length m \<le> arr s"
  by (auto simp: holds_front_def carved_def)

lemma split_then_child:
  assumes v: "sl_valid m attrs" and sp: "split_attrs attrs m = Inr (a, attrs1, m1)"
    and oc: "only_changed m1 m2 (arr a) (off a + len a) (off a + cap a)"
  shows "sl_valid m2 attrs1 \<and> sl_read m2 attrs1 = sl_read m attrs"
proof -
  note st = split_attrs_step [OF v sp]
  from st have v1: "sl_valid m1 attrs1" by (elim conjE)
  from st have r1: "sl_read m1 attrs1 = sl_read m attrs" by (elim conjE)
  from st have "len a = len attrs" "cap a = len attrs" by simp_all
  then have "off a + len a = off a + cap a" by simp
  with oc have "only_changed m1 m2 (arr a) (off a + len a) (off a + len a)" by simp
  then have "only_changed m1 m2 (arr attrs1) 0 0" by (rule only_changed_empty)
  from only_changed_read [OF this v1] r1 show ?thesis by simp
qed

lemma leaf_slices_ok_step:
  assumes v: "sl_valid m attrs" and sp: "split_attrs attrs m = Inr (a, attrs1, m1)"
    and c0: "leaf_slices_ok m1 a m2 new0" and c1: "leaf_slices_ok m2 attrs1 m' new1"
  shows "leaf_slices_ok m attrs m' (new0 @ new1)"
proof -
  note st = split_attrs_step [OF v sp]
  from st have hd: "arr attrs1 = arr attrs" "off attrs1 = off attrs" "len attrs1 = len attrs"
    "len attrs \<le> cap attrs1" "cap attrs1 \<le> cap attrs" "len a = len attrs" "cap a = len attrs"
    by simp_all
  from st have pos: "(arr a = arr attrs \<and> off attrs + cap attrs1 \<le> off a \<and>
         off a + cap a \<le> off attrs + cap attrs) \<or> arr a = length m" by (elim conjE)
  from st have am: "arr a < length m1" "length m \<le> length m1" by simp_all
  from st have oc1: "only_changed m m1 (arr attrs) (off attrs + cap attrs1) (off attrs + cap attrs)"
    by (elim conjE)
  from st have ra: "sl_read m1 a = sl_read m attrs" by (elim conjE)
  from v have vl: "arr attrs < length m" "len attrs \<le> cap attrs" by (simp_all add: sl_valid_def)
  from c0 have oc2: "only_changed m1 m2 (arr a) (off a + len a) (off a + cap a)"
    by (simp add: leaf_slices_ok_def)
  from c1 hd have oc3: "only_changed m2 m' (arr attrs) (off attrs + len attrs) (off attrs + cap attrs1)"
    by (simp add: leaf_slices_ok_def)
  note mid = split_then_child [OF v sp oc2]
  from oc2 hd have "only_changed m1 m2 (arr a) (off a + len a) (off a + len a)" by simp
  then have oc2': "only_changed m1 m2 (arr attrs) (off attrs + cap attrs1) (off attrs + cap attrs1)"
    by (rule only_changed_empty)
  from only_changed_length [OF oc2] have l12: "length m1 \<le> length m2" .
  from only_changed_trans [OF oc1 oc2', of "off attrs + cap attrs1" "off attrs + cap attrs"] hd
  have "only_changed m m2 (arr attrs) (off attrs + cap attrs1) (off attrs + cap attrs)" by simp
  from only_changed_trans [OF this oc3, of "off attrs + len attrs" "off attrs + cap attrs"] hd
  have A: "only_changed m m' (arr attrs) (off attrs + len attrs) (off attrs + cap attrs)" by simp
  from c0 have k0: "\<forall>p\<in>set new0. sl_valid m2 (snd p) \<and> sl_read m2 (snd p) = sl_read m1 a \<and>
      len (snd p) = len a \<and> (holds_front a (snd p) \<or> carved m1 a (snd p))"
    and d0: "all_disjoint (map snd new0)"
    by (simp_all add: leaf_slices_ok_def)
  from c1 have k1: "\<forall>p\<in>set new1. sl_valid m' (snd p) \<and> sl_read m' (snd p) = sl_read m2 attrs1 \<and>
      len (snd p) = len attrs1 \<and> (holds_front attrs1 (snd p) \<or> carved m2 attrs1 (snd p))"
    and d1: "all_disjoint (map snd new1)"
    by (simp_all add: leaf_slices_ok_def)
  have in_a: "(arr (snd p) = arr a \<and> off a \<le> off (snd p) \<and>
               off (snd p) + cap (snd p) \<le> off a + cap a) \<or>
              length m1 \<le> arr (snd p)" if "p \<in> set new0" for p
  proof -
    from k0 that have "holds_front a (snd p) \<or> carved m1 a (snd p)" by blast
    then show ?thesis by (rule placed)
  qed
  have in_1: "(arr (snd q) = arr attrs \<and> off attrs \<le> off (snd q) \<and>
               off (snd q) + cap (snd q) \<le> off attrs + cap attrs1) \<or>
              length m2 \<le> arr (snd q)" if "q \<in> set new1" for q
  proof -
    from k1 that have "holds_front attrs1 (snd q) \<or> carved m2 attrs1 (snd q)" by blast
    from placed [OF this] show ?thesis by (simp only: hd)
  qed
  have B0: "sl_valid m' (snd p) \<and> sl_read m' (snd p) = sl_read m attrs \<and>
            len (snd p) = len attrs \<and>
            (holds_front attrs (snd p) \<or> carved m attrs (snd p))" if p: "p \<in> set new0" for p
  proof -
    define s where "s = snd p"
    from k0 p have vs: "sl_valid m2 s" and rs: "sl_read m2 s = sl_read m1 a"
      and ls: "len s = len a"
      unfolding s_def by blast+
    note ia = in_a [OF p, folded s_def]
    from vl am have lt: "arr attrs < length m1" by simp
    have far: "arr s \<noteq> arr attrs \<or> off s + len s \<le> off attrs + len attrs \<or>
               off attrs + cap attrs1 \<le> off s"
      using ia pos lt vl(1) by arith
    from only_changed_read [OF oc3 vs far] have "sl_valid m' s" "sl_read m' s = sl_read m2 s"
      by simp_all
    moreover have "carved m attrs s"
      unfolding carved_def using ia pos am(2) hd(4) by arith
    ultimately show ?thesis unfolding s_def [symmetric] using rs ra ls hd(6) by simp
  qed
  have B1: "sl_valid m' (snd q) \<and> sl_read m' (snd q) = sl_read m attrs \<and>
            len (snd q) = len attrs \<and>
            (holds_front attrs (snd q) \<or> carved m attrs (snd q))" if q: "q \<in> set new1" for q
  proof -
    define t where "t = snd q"
    from k1 q have vt: "sl_valid m' t" and rt: "sl_read m' t = sl_read m2 attrs1"
      and lt: "len t = len attrs1" and ft: "holds_front attrs1 t \<or> carved m2 attrs1 t"
      unfolding t_def by blast+
    from am l12 have lm: "length m \<le> length m2" by simp
    from ft have "holds_front attrs t \<or> carved m attrs t"
    proof
      assume "holds_front attrs1 t"
      with hd show ?thesis by (simp add: holds_front_def)
    next
      assume "carved m2 attrs1 t"
      from carved_weaken [OF this hd(1,2,3,5) lm] show ?thesis ..
    qed
    moreover from mid rt have "sl_read m' t = sl_read m attrs" by simp
    ultimately show ?thesis unfolding t_def [symmetric] using vt lt hd(3) by simp
  qed
  have C: "sl_disjoint (snd p) (snd q)" if p: "p \<in> set new0" and q: "q \<in> set new1" for p q
  proof -
    from k0 p have "sl_valid m2 (snd p)" by blast
    then have "arr (snd p) < length m2" by (simp add: sl_valid_def)
    with in_a [OF p] in_1 [OF q] pos am vl l12 show ?thesis
      unfolding sl_disjoint_def by arith
  qed
  from d0 d1 C have D: "all_disjoint (map snd (new0 @ new1))"
    by (simp add: all_disjoint_append)
  have B: "\<forall>p\<in>set (new0 @ new1). sl_valid m' (snd p) \<and> sl_read m' (snd p) = sl_read m attrs \<and>
        len (snd p) = len attrs \<and> (holds_front attrs (snd p) \<or> carved m attrs (snd p))"
  proof
    fix p assume "p \<in> set (new0 @ new1)"
    then have "p \<in> set new0 \<or> p \<in> set new1" by simp
    then show "sl_valid m' (snd p) \<and> sl_read m' (snd p) = sl_read m attrs \<and>
        len (snd p) = len attrs \<and> (holds_front attrs (snd p) \<or> carved m attrs (snd p))"
      using B0 B1 by blast
  qed
  from A B D show ?thesis unfolding leaf_slices_ok_def by (intro conjI)
qed

lemma leaf_slices_ok_leaf:
  "sl_valid m attrs \<Longrightarrow> leaf_slices_ok m attrs m [(x, attrs)]"
  by (simp add: leaf_slices_ok_def only_changed_refl holds_front_def all_disjoint_def)

lemma leaf_slices_ok_none: "leaf_slices_ok m attrs m []"
  by (simp add: leaf_slices_ok_def only_changed_refl all_disjoint_def)

lemma isolating_list:
  assumes kids: "\<forall>h\<in>set hs. isolating E h"
  shows "sl_valid m attrs \<Longrightarrow>
     handlers_WithAttrs E hs attrs (m, tr) = Inr (hs', (m', tr')) \<Longrightarrow>
     \<exists>new. tr' = tr @ new \<and> leaf_slices_ok m attrs m' new"
  using kids
proof (induction hs arbitrary: attrs m tr hs' m' tr')
  case Nil
  then show ?case by simp
next
  case (Cons h hs)
  from Cons.prems(3) have ih: "isolating E h" and rest: "\<forall>k\<in>set hs. isolating E k"
    by simp_all
  show ?case
  proof (cases hs)
    case Nil
    with Cons.prems(2) obtain g where "WithAttrs E h attrs (m, tr) = Inr (g, (m', tr'))"
      by (auto split: sum.splits)
    with ih Cons.prems(1) show ?thesis unfolding isolating_def by blast
  next
    case (Cons k ks)
    from split_attrs_returns obtain a attrs1 m1 where
      sp: "split_attrs attrs m = Inr (a, attrs1, m1)" by blast
    from Cons.prems(2) sp Cons obtain g m2 tr2 gs where
      first: "WithAttrs E h a (m1, tr) = Inr (g, (m2, tr2))"
      and more: "handlers_WithAttrs E hs attrs1 (m2, tr2) = Inr (gs, (m', tr'))"
      by (auto split: sum.splits)
    from split_attrs_step [OF Cons.prems(1) sp] have va: "sl_valid m1 a" by (elim conjE)
    from ih va first obtain new0 where
      t0: "tr2 = tr @ new0" and c0: "leaf_slices_ok m1 a m2 new0"
      unfolding isolating_def by blast
    from c0 have "only_changed m1 m2 (arr a) (off a + len a) (off a + cap a)"
      by (simp add: leaf_slices_ok_def)
    from split_then_child [OF Cons.prems(1) sp this] have v1: "sl_valid m2 attrs1" ..
    from Cons.IH [OF v1 more rest] obtain new1 where
      t1: "tr' = tr2 @ new1" and c1: "leaf_slices_ok m2 attrs1 m' new1"
      by blast
    from leaf_slices_ok_step [OF Cons.prems(1) sp c0 c1] t0 t1 show ?thesis by auto
  qed
qed

lemma isolating_all: "isolating E h"
proof (induction h)
  case NilHandler
  show ?case by (simp add: isolating_def)
next
  case (Leaf x)
  show ?case unfolding isolating_def
  proof (intro allI impI)
    fix attrs m tr h' m' tr'
    assume v: "sl_valid m attrs" and r: "WithAttrs E (Leaf x) attrs (m, tr) = Inr (h', (m', tr'))"
    then have "tr' = tr @ [(x, attrs)]" "m' = m" by simp_all
    with leaf_slices_ok_leaf [OF v] show "\<exists>new. tr' = tr @ new \<and> leaf_slices_ok m attrs m' new"
      by blast
  qed
next
  case Handler0
  show ?case unfolding isolating_def
  proof (intro allI impI)
    fix attrs m tr h' m' tr'
    assume "WithAttrs E Handler0 attrs (m, tr) = Inr (h', (m', tr'))"
    then have "tr' = tr @ []" "m' = m" by simp_all
    with leaf_slices_ok_none show "\<exists>new. tr' = tr @ new \<and> leaf_slices_ok m attrs m' new"
      by blast
  qed
next
  case (Handler2 h0 h1)
  then have kids: "\<forall>h\<in>set [h0, h1]. isolating E h" by simp
  show ?case unfolding isolating_def
  proof (intro allI impI)
    fix attrs m tr h' m' tr'
    assume v: "sl_valid m attrs"
      and r: "WithAttrs E (Handler2 h0 h1) attrs (m, tr) = Inr (h', (m', tr'))"
    from r obtain gs where "handlers_WithAttrs E [h0, h1] attrs (m, tr) = Inr (gs, (m', tr'))"
      unfolding Handler2_WithAttrs_as_list by (auto split: sum.splits)
    from isolating_list [OF kids v this]
    show "\<exists>new. tr' = tr @ new \<and> leaf_slices_ok m attrs m' new" .
  qed
next
  case (HandlersList hs)
  then have kids: "\<forall>h\<in>set hs. isolating E h" by simp
  show ?case unfolding isolating_def
  proof (intro allI impI)
    fix attrs m tr h' m' tr'
    assume v: "sl_valid m attrs"
      and r: "WithAttrs E (HandlersList hs) attrs (m, tr) = Inr (h', (m', tr'))"
    from r obtain gs where "handlers_WithAttrs E hs attrs (m, tr) = Inr (gs, (m', tr'))"
      by (auto split: sum.splits)
    from isolating_list [OF kids v this]
    show "\<exists>new. tr' = tr @ new \<and> leaf_slices_ok m attrs m' new" .
  qed
qed

lemma WithAttrs_shape:
  assumes "internal_handlers h = Some hs" and "WithAttrs E h a s = Inr (h', s')"
  shows "\<exists>gs. internal_handlers h' = Some gs \<and> length gs = length hs \<and>
           ((\<exists>h0 h1. h = Handler2 h0 h1) \<longleftrightarrow> (\<exists>g0 g1. h' = Handler2 g0 g1))"
proof (cases h)
  case (HandlersList ks)
  with assms obtain gs where "handlers_WithAttrs E ks a s = Inr (gs, s')" "h' = HandlersList gs"
    by (auto split: sum.splits)
  with handlers_WithAttrs_length [OF this(1)] assms(1) HandlersList show ?thesis by auto
next
  case (Handler2 h0 h1)
  with assms show ?thesis by (auto split: sum.splits)
next
  case Handler0
  with assms show ?thesis by auto
qed (use assms in auto)

subsection \<open>Isolation of the attribute buffers\<close>

text \<open>
  C7. For a \<^verbatim>\<open>WithAttrs\<close> call on any handler, with an attribute slice that fits the
  memory. If the call returns, then the slices it handed to foreign handlers, at any
  depth of nesting, share no cell pairwise, not even within their capacities; each of
  them fits the memory and holds the attribute values of the call; and the result of a
  call on a composite is a composite of the same kind with as many children. For a pair
  or list whose children are the foreign handlers \<open>xs\<close> the call does return, and the
  children of the result are, in order, what each child's own \<^verbatim>\<open>WithAttrs\<close> returned
  for the slice it was given. The receiver is a value and the call has no access to
  handler storage, so it cannot be changed.
\<close>

theorem WithAttrs_buffers_disjoint:
  assumes "sl_valid m attrs"
  shows "(\<forall>h' m' tr'. WithAttrs E h attrs (m, tr) = Inr (h', (m', tr')) \<longrightarrow>
       (\<exists>new. tr' = tr @ new \<and> all_disjoint (map snd new) \<and>
          (\<forall>p\<in>set new. sl_valid m' (snd p) \<and> sl_read m' (snd p) = sl_read m attrs)) \<and>
       (\<forall>hs. internal_handlers h = Some hs \<longrightarrow>
          (\<exists>gs. internal_handlers h' = Some gs \<and> length gs = length hs \<and>
             ((\<exists>h0 h1. h = Handler2 h0 h1) \<longleftrightarrow> (\<exists>g0 g1. h' = Handler2 g0 g1))))) \<and>
     (\<forall>xs. internal_handlers h = Some (map Leaf xs) \<longrightarrow> xs \<noteq> [] \<longrightarrow>
       (\<exists>ss h' m'. WithAttrs E h attrs (m, tr) = Inr (h', (m', tr @ zip xs ss)) \<and>
          length ss = length xs \<and>
          internal_handlers h' = Some (map (\<lambda>(x, s). l_WithAttrs E x s) (zip xs ss)) \<and>
          ((\<exists>h0 h1. h = Handler2 h0 h1) \<longleftrightarrow> (\<exists>g0 g1. h' = Handler2 g0 g1)) \<and>
          all_disjoint ss \<and>
          (\<forall>s\<in>set ss. sl_valid m' s \<and> sl_read m' s = sl_read m attrs)))"
proof (intro conjI allI impI)
  fix h' m' tr'
  assume r: "WithAttrs E h attrs (m, tr) = Inr (h', (m', tr'))"
  from isolating_all [of E h, unfolded isolating_def, rule_format, OF assms r] obtain new where
    "tr' = tr @ new" and "leaf_slices_ok m attrs m' new" by blast
  then show "\<exists>new. tr' = tr @ new \<and> all_disjoint (map snd new) \<and>
          (\<forall>p\<in>set new. sl_valid m' (snd p) \<and> sl_read m' (snd p) = sl_read m attrs)"
    unfolding leaf_slices_ok_def by blast
next
  fix h' m' tr' hs
  assume "WithAttrs E h attrs (m, tr) = Inr (h', (m', tr'))" and "internal_handlers h = Some hs"
  from WithAttrs_shape [OF this(2,1)]
  show "\<exists>gs. internal_handlers h' = Some gs \<and> length gs = length hs \<and>
             ((\<exists>h0 h1. h = Handler2 h0 h1) \<longleftrightarrow> (\<exists>g0 g1. h' = Handler2 g0 g1))" .
next
  fix xs
  assume i: "internal_handlers h = Some (map Leaf xs)" and ne: "xs \<noteq> []"
  from composite_WithAttrs_leaves [OF i ne, of E attrs "(m, tr)"] obtain gs s' h' where
    run: "handlers_WithAttrs E (map Leaf xs) attrs (m, tr) = Inr (gs, s')"
    and top: "WithAttrs E h attrs (m, tr) = Inr (h', s')"
    and kids: "length gs = length xs \<longrightarrow> internal_handlers h' = Some gs"
    and kind: "(\<exists>h0 h1. h = Handler2 h0 h1) \<longleftrightarrow> (\<exists>g0 g1. h' = Handler2 g0 g1)"
    by blast
  obtain m' tr' where s': "s' = (m', tr')" by (cases s')
  from handlers_WithAttrs_leaves [OF ne assms run [unfolded s']] obtain ss where
    l: "length ss = length xs" and t: "tr' = tr @ zip xs ss"
    and g: "gs = map (\<lambda>(x, s). l_WithAttrs E x s) (zip xs ss)"
    and vr: "\<forall>s\<in>set ss. sl_valid m' s \<and> sl_read m' s = sl_read m attrs"
    and dj: "\<forall>i j. i < j \<longrightarrow> j < length ss \<longrightarrow> sl_disjoint (ss ! i) (ss ! j)"
    by blast
  from dj have dj': "all_disjoint ss" by (simp only: all_disjoint_def)
  from g l have "length gs = length xs" by simp
  with kids g have "internal_handlers h' = Some (map (\<lambda>(x, s). l_WithAttrs E x s) (zip xs ss))"
    by simp
  with top s' t l kind dj' vr
  show "\<exists>ss h' m'. WithAttrs E h attrs (m, tr) = Inr (h', (m', tr @ zip xs ss)) \<and>
          length ss = length xs \<and>
          internal_handlers h' = Some (map (\<lambda>(x, s). l_WithAttrs E x s) (zip xs ss)) \<and>
          ((\<exists>h0 h1. h = Handler2 h0 h1) \<longleftrightarrow> (\<exists>g0 g1. h' = Handler2 g0 g1)) \<and>
          all_disjoint ss \<and>
          (\<forall>s\<in>set ss. sl_valid m' s \<and> sl_read m' s = sl_read m attrs)" by blast
qed

theorem WithAttrs_buffers_disjoint_witness:
  "sl_valid sample_attrs_mem sample_attrs \<and>
   WithAttrs sample_env (Handler2 (Handler2 (Leaf 0) (Leaf 1)) (Leaf 2)) sample_attrs
       (sample_attrs_mem, []) =
     Inr (Handler2 (Handler2 (Leaf 10) (Leaf 11)) (Leaf 12),
          ([[(''a'', ''1''), (''a'', ''1'')], [(''a'', ''1'')]],
           [(0, \<lparr>arr = 1, off = 0, len = 1, cap = 1\<rparr>),
            (1, \<lparr>arr = 0, off = 1, len = 1, cap = 1\<rparr>),
            (2, \<lparr>arr = 0, off = 0, len = 1, cap = 1\<rparr>)])) \<and>
   (\<exists>new. [(0, \<lparr>arr = 1, off = 0, len = 1, cap = 1\<rparr>),
           (1, \<lparr>arr = 0, off = 1, len = 1, cap = 1\<rparr>),
           (2 :: leaf, \<lparr>arr = 0, off = 0, len = 1, cap = 1\<rparr>)] = [] @ new \<and>
      all_disjoint (map snd new) \<and>
      (\<forall>p\<in>set new. sl_valid [[(''a'', ''1''), (''a'', ''1'')], [(''a'', ''1'')]] (snd p) \<and>
         sl_read [[(''a'', ''1''), (''a'', ''1'')], [(''a'', ''1'')]] (snd p) =
         sl_read sample_attrs_mem sample_attrs)) \<and>
   (\<exists>gs. internal_handlers (Handler2 (Handler2 (Leaf 10) (Leaf 11)) (Leaf 12)) = Some gs \<and>
      length gs = length [Handler2 (Leaf 0) (Leaf 1), Leaf 2] \<and>
      ((\<exists>h0 h1. Handler2 (Handler2 (Leaf 0) (Leaf 1)) (Leaf 2) = Handler2 h0 h1) \<longleftrightarrow>
       (\<exists>g0 g1. Handler2 (Handler2 (Leaf 10) (Leaf 11)) (Leaf 12) = Handler2 g0 g1))) \<and>
   internal_handlers (HandlersList [Leaf 0, Leaf 1, Leaf 2]) = Some (map Leaf [0, 1, 2]) \<and>
   [0, 1, 2] \<noteq> ([] :: leaf list) \<and>
   (\<exists>ss h' m'.
      WithAttrs sample_env (HandlersList [Leaf 0, Leaf 1, Leaf 2]) sample_attrs (sample_attrs_mem, []) =
        Inr (h', (m', [] @ zip [0, 1, 2] ss)) \<and>
      length ss = length [0, 1, 2 :: leaf] \<and>
      internal_handlers h' =
        Some (map (\<lambda>(x, s). l_WithAttrs sample_env x s) (zip [0, 1, 2] ss)) \<and>
      ((\<exists>h0 h1. HandlersList [Leaf 0, Leaf 1, Leaf 2] = Handler2 h0 h1) \<longleftrightarrow>
         (\<exists>g0 g1. h' = Handler2 g0 g1)) \<and>
      all_disjoint ss \<and>
      (\<forall>s\<in>set ss. sl_valid m' s \<and> sl_read m' s = sl_read sample_attrs_mem sample_attrs))"
proof -
  have a: "internal_handlers (HandlersList [Leaf 0, Leaf 1, Leaf 2]) = Some (map Leaf [0, 1, 2])"
    by simp
  have b: "[0, 1, 2] \<noteq> ([] :: leaf list)" by simp
  have i: "internal_handlers (Handler2 (Handler2 (Leaf 0) (Leaf 1)) (Leaf 2)) =
             Some [Handler2 (Leaf 0) (Leaf 1), Leaf 2]" by simp
  have run: "WithAttrs sample_env (Handler2 (Handler2 (Leaf 0) (Leaf 1)) (Leaf 2)) sample_attrs
       (sample_attrs_mem, []) =
     Inr (Handler2 (Handler2 (Leaf 10) (Leaf 11)) (Leaf 12),
          ([[(''a'', ''1''), (''a'', ''1'')], [(''a'', ''1'')]],
           [(0, \<lparr>arr = 1, off = 0, len = 1, cap = 1\<rparr>),
            (1, \<lparr>arr = 0, off = 1, len = 1, cap = 1\<rparr>),
            (2, \<lparr>arr = 0, off = 0, len = 1, cap = 1\<rparr>)]))"
    by code_simp
  note n = WithAttrs_buffers_disjoint [OF sample_attrs_valid,
      where E = sample_env and h = "Handler2 (Handler2 (Leaf 0) (Leaf 1)) (Leaf 2)" and tr = "[]",
      THEN conjunct1, rule_format, OF run]
  note n1 = n [THEN conjunct1]
  note n2 = n [THEN conjunct2, rule_format, OF i]
  note f = WithAttrs_buffers_disjoint [OF sample_attrs_valid,
      where E = sample_env and h = "HandlersList [Leaf 0, Leaf 1, Leaf 2]" and tr = "[]",
      THEN conjunct2, rule_format, OF a b]
  from sample_attrs_valid run n1 n2 a b f show ?thesis by (intro conjI)
qed

text \<open>
  C8, as the code has it. After a \<^verbatim>\<open>WithAttrs\<close> call on any handler, with a caller's
  attribute slice that fits the memory: the slice handed to each foreign handler, at any
  depth of nesting, holds the attribute values of the call, and it either begins at the
  caller's own cells (same array, offset and length) or lies in the caller's spare
  capacity or in a new array, and then overwriting an element of the caller's slice does
  not change what it holds. For a pair or list whose children are the foreign handlers
  \<open>xs\<close>, the last child is the one given the caller's own cells, and every other
  child's slice lies in the spare capacity or in a new array.
\<close>

theorem WithAttrs_caller_writes:
  assumes "sl_valid m attrs" and "WithAttrs E h attrs (m, tr) = Inr (h', (m', tr'))"
  shows "(\<exists>new. tr' = tr @ new \<and>
        (\<forall>p\<in>set new. sl_read m' (snd p) = sl_read m attrs \<and>
           (holds_front attrs (snd p) \<or>
            carved m attrs (snd p) \<and>
            (\<forall>i<len attrs. \<forall>v. sl_read (sl_store m' attrs i v) (snd p) = sl_read m' (snd p))))) \<and>
     (\<forall>xs. internal_handlers h = Some (map Leaf xs) \<longrightarrow> xs \<noteq> [] \<longrightarrow>
       (\<exists>ss. length ss = length xs \<and> tr' = tr @ zip xs ss \<and> holds_front attrs (last ss) \<and>
          (\<forall>s\<in>set (butlast ss). carved m attrs s)))"
proof (intro conjI allI impI)
  from isolating_all [of E h, unfolded isolating_def, rule_format, OF assms] obtain new where
    t: "tr' = tr @ new" and ok: "leaf_slices_ok m attrs m' new" by blast
  from ok have oc: "only_changed m m' (arr attrs) (off attrs + len attrs) (off attrs + cap attrs)"
    and each: "\<forall>p\<in>set new. sl_valid m' (snd p) \<and> sl_read m' (snd p) = sl_read m attrs \<and>
          len (snd p) = len attrs \<and> (holds_front attrs (snd p) \<or> carved m attrs (snd p))"
    by (simp_all add: leaf_slices_ok_def)
  from assms(1) have vl: "arr attrs < length m" by (simp add: sl_valid_def)
  have "arr attrs \<noteq> arr attrs \<or> off attrs + len attrs \<le> off attrs + len attrs \<or>
        off attrs + cap attrs \<le> off attrs" by simp
  from only_changed_read [OF oc assms(1) this] have va: "sl_valid m' attrs" by simp
  have imm: "sl_read (sl_store m' attrs i v) (snd p) = sl_read m' (snd p)"
    if "p \<in> set new" "carved m attrs (snd p)" "i < len attrs" for p i v
  proof -
    from that(1) each have vs: "sl_valid m' (snd p)" by blast
    from that(2) vl have "arr (snd p) \<noteq> arr attrs \<or> off attrs + len attrs \<le> off (snd p)"
      by (auto simp: carved_def)
    from sl_store_elsewhere [OF va vs that(3) this] show ?thesis .
  qed
  have "sl_read m' (snd p) = sl_read m attrs \<and>
           (holds_front attrs (snd p) \<or>
            carved m attrs (snd p) \<and>
            (\<forall>i<len attrs. \<forall>v. sl_read (sl_store m' attrs i v) (snd p) = sl_read m' (snd p)))"
    if "p \<in> set new" for p
  proof -
    from that each have a: "sl_read m' (snd p) = sl_read m attrs"
      and b: "holds_front attrs (snd p) \<or> carved m attrs (snd p)" by blast+
    from b imm [OF that] have "holds_front attrs (snd p) \<or>
            carved m attrs (snd p) \<and>
            (\<forall>i<len attrs. \<forall>v. sl_read (sl_store m' attrs i v) (snd p) = sl_read m' (snd p))"
      by blast
    with a show ?thesis ..
  qed
  with t show "\<exists>new. tr' = tr @ new \<and>
        (\<forall>p\<in>set new. sl_read m' (snd p) = sl_read m attrs \<and>
           (holds_front attrs (snd p) \<or>
            carved m attrs (snd p) \<and>
            (\<forall>i<len attrs. \<forall>v. sl_read (sl_store m' attrs i v) (snd p) = sl_read m' (snd p))))"
    by blast
next
  fix xs
  assume i: "internal_handlers h = Some (map Leaf xs)" and ne: "xs \<noteq> []"
  from composite_WithAttrs_leaves [OF i ne, of E attrs "(m, tr)"] assms(2) obtain gs where
    run: "handlers_WithAttrs E (map Leaf xs) attrs (m, tr) = Inr (gs, (m', tr'))"
    by auto
  from handlers_WithAttrs_leaves [OF ne assms(1) run] obtain ss where
    l: "length ss = length xs" and t: "tr' = tr @ zip xs ss"
    and vr: "\<forall>s\<in>set ss. sl_valid m' s \<and> sl_read m' s = sl_read m attrs"
    and bl: "\<forall>s\<in>set (butlast ss). carved m attrs s \<and> cap s = len attrs \<and> len s = len attrs"
    and la: "arr (last ss) = arr attrs" "off (last ss) = off attrs" "len (last ss) = len attrs"
    and lc: "cap (last ss) \<le> cap attrs"
    by blast
  from la lc have "holds_front attrs (last ss)" by (simp add: holds_front_def)
  with l t bl
  show "\<exists>ss. length ss = length xs \<and> tr' = tr @ zip xs ss \<and> holds_front attrs (last ss) \<and>
          (\<forall>s\<in>set (butlast ss). carved m attrs s)" by blast
qed

theorem WithAttrs_caller_writes_witness:
  "sl_valid sample_attrs_mem sample_attrs \<and>
   WithAttrs sample_env (Handler2 (Handler2 (Leaf 0) (Leaf 1)) (Leaf 2)) sample_attrs
       (sample_attrs_mem, []) =
     Inr (Handler2 (Handler2 (Leaf 10) (Leaf 11)) (Leaf 12),
          ([[(''a'', ''1''), (''a'', ''1'')], [(''a'', ''1'')]],
           [(0, \<lparr>arr = 1, off = 0, len = 1, cap = 1\<rparr>),
            (1, \<lparr>arr = 0, off = 1, len = 1, cap = 1\<rparr>),
            (2, \<lparr>arr = 0, off = 0, len = 1, cap = 1\<rparr>)])) \<and>
   (\<exists>new. [(0, \<lparr>arr = 1, off = 0, len = 1, cap = 1\<rparr>),
           (1, \<lparr>arr = 0, off = 1, len = 1, cap = 1\<rparr>),
           (2 :: leaf, \<lparr>arr = 0, off = 0, len = 1, cap = 1\<rparr>)] = [] @ new \<and>
      (\<forall>p\<in>set new.
         sl_read [[(''a'', ''1''), (''a'', ''1'')], [(''a'', ''1'')]] (snd p) =
           sl_read sample_attrs_mem sample_attrs \<and>
         (holds_front sample_attrs (snd p) \<or>
          carved sample_attrs_mem sample_attrs (snd p) \<and>
          (\<forall>i<len sample_attrs. \<forall>v.
             sl_read (sl_store [[(''a'', ''1''), (''a'', ''1'')], [(''a'', ''1'')]] sample_attrs i v)
               (snd p) =
             sl_read [[(''a'', ''1''), (''a'', ''1'')], [(''a'', ''1'')]] (snd p))))) \<and>
   internal_handlers (HandlersList [Leaf 0, Leaf 1, Leaf 2]) = Some (map Leaf [0, 1, 2]) \<and>
   [0, 1, 2] \<noteq> ([] :: leaf list) \<and>
   WithAttrs sample_env (HandlersList [Leaf 0, Leaf 1, Leaf 2]) sample_attrs (sample_attrs_mem, []) =
     Inr (HandlersList [Leaf 10, Leaf 11, Leaf 12],
          ([[(''a'', ''1''), (''a'', ''1'')], [(''a'', ''1'')]],
           [(0, \<lparr>arr = 0, off = 1, len = 1, cap = 1\<rparr>),
            (1, \<lparr>arr = 1, off = 0, len = 1, cap = 1\<rparr>),
            (2, \<lparr>arr = 0, off = 0, len = 1, cap = 1\<rparr>)])) \<and>
   (\<exists>ss. length ss = length [0, 1, 2 :: leaf] \<and>
      [(0, \<lparr>arr = 0, off = 1, len = 1, cap = 1\<rparr>),
       (1, \<lparr>arr = 1, off = 0, len = 1, cap = 1\<rparr>),
       (2, \<lparr>arr = 0, off = 0, len = 1, cap = 1\<rparr>)] = [] @ zip [0, 1, 2 :: leaf] ss \<and>
      holds_front sample_attrs (last ss) \<and>
      (\<forall>s\<in>set (butlast ss). carved sample_attrs_mem sample_attrs s))"
proof -
  have a: "internal_handlers (HandlersList [Leaf 0, Leaf 1, Leaf 2]) = Some (map Leaf [0, 1, 2])"
    by simp
  have b: "[0, 1, 2] \<noteq> ([] :: leaf list)" by simp
  have nested: "WithAttrs sample_env (Handler2 (Handler2 (Leaf 0) (Leaf 1)) (Leaf 2)) sample_attrs
       (sample_attrs_mem, []) =
     Inr (Handler2 (Handler2 (Leaf 10) (Leaf 11)) (Leaf 12),
          ([[(''a'', ''1''), (''a'', ''1'')], [(''a'', ''1'')]],
           [(0, \<lparr>arr = 1, off = 0, len = 1, cap = 1\<rparr>),
            (1, \<lparr>arr = 0, off = 1, len = 1, cap = 1\<rparr>),
            (2, \<lparr>arr = 0, off = 0, len = 1, cap = 1\<rparr>)]))"
    by code_simp
  have run: "WithAttrs sample_env (HandlersList [Leaf 0, Leaf 1, Leaf 2]) sample_attrs
       (sample_attrs_mem, []) =
     Inr (HandlersList [Leaf 10, Leaf 11, Leaf 12],
          ([[(''a'', ''1''), (''a'', ''1'')], [(''a'', ''1'')]],
           [(0, \<lparr>arr = 0, off = 1, len = 1, cap = 1\<rparr>),
            (1, \<lparr>arr = 1, off = 0, len = 1, cap = 1\<rparr>),
            (2, \<lparr>arr = 0, off = 0, len = 1, cap = 1\<rparr>)]))"
    by code_simp
  note n = WithAttrs_caller_writes [OF sample_attrs_valid nested, THEN conjunct1]
  note f = WithAttrs_caller_writes [OF sample_attrs_valid run, THEN conjunct2, rule_format, OF a b]
  from sample_attrs_valid nested n a b run f show ?thesis by (intro conjI)
qed

text \<open>
  C8, as it is stated, fails twice. Without spare capacity the last child of a pair is
  given the caller's slice itself, so an element the caller overwrites afterwards is
  overwritten in what that child holds. With spare capacity the first child's copy is
  made in the caller's spare capacity, so an append by the caller within its capacity
  overwrites the copy.
\<close>

theorem caller_mutation_counterexample:
  "WithAttrs sample_env (Handler2 (Leaf 0) (Leaf 1)) full_attrs (full_attrs_mem, []) =
     Inr (Handler2 (Leaf 10) (Leaf 11),
          ([[(''a'', ''1'')], [(''a'', ''1'')]],
           [(0, \<lparr>arr = 1, off = 0, len = 1, cap = 1\<rparr>), (1, full_attrs)])) \<and>
   sl_read [[(''a'', ''1'')], [(''a'', ''1'')]] full_attrs = [(''a'', ''1'')] \<and>
   sl_read (sl_store [[(''a'', ''1'')], [(''a'', ''1'')]] full_attrs 0 (''a'', ''2'')) full_attrs =
     [(''a'', ''2'')] \<and>
   WithAttrs sample_env (Handler2 (Leaf 0) (Leaf 1)) sample_attrs (sample_attrs_mem, []) =
     Inr (Handler2 (Leaf 10) (Leaf 11),
          ([[(''a'', ''1''), (''a'', ''1'')]],
           [(0, \<lparr>arr = 0, off = 1, len = 1, cap = 1\<rparr>),
            (1, \<lparr>arr = 0, off = 0, len = 1, cap = 1\<rparr>)])) \<and>
   sl_read [[(''a'', ''1''), (''a'', ''1'')]] \<lparr>arr = 0, off = 1, len = 1, cap = 1\<rparr> =
     [(''a'', ''1'')] \<and>
   sl_append tight zero_attr [[(''a'', ''1''), (''a'', ''1'')]] sample_attrs [(''b'', ''2'')] =
     (\<lparr>arr = 0, off = 0, len = 2, cap = 2\<rparr>, [[(''a'', ''1''), (''b'', ''2'')]]) \<and>
   sl_read [[(''a'', ''1''), (''b'', ''2'')]] \<lparr>arr = 0, off = 1, len = 1, cap = 1\<rparr> =
     [(''b'', ''2'')]"
  by code_simp

end
